theory Spec2Isabelle
  imports Complex_Main
begin

section \<open>Python strings\<close>

text \<open>
  A Python \<open>str\<close> is modelled as a \<open>string\<close>: one \<open>char\<close> per code point, for
  the code points below 256. \<open>len\<close> is \<open>length\<close>; the lengths compared with the
  (unbounded, possibly negative) bounds of the source are integers.
\<close>

definition is_space :: "char \<Rightarrow> bool" where
  \<comment> \<open>\<open>str.isspace\<close> on one character, which is also the class \<open>\s\<close> of \<open>re\<close>.\<close>
  "is_space c =
     (let n = (of_char c :: nat)
      in (9 \<le> n \<and> n \<le> 13) \<or> (28 \<le> n \<and> n \<le> 32) \<or> n = 133 \<or> n = 160)"

definition newline :: char where
  "newline = CHR 0x0A"

definition is_sentence_end :: "char \<Rightarrow> bool" where
  \<comment> \<open>the class \<open>[.!?]\<close> of the look-behind\<close>
  "is_sentence_end c = (c = CHR ''.'' \<or> c = CHR ''!'' \<or> c = CHR ''?'')"

definition py_strip :: "string \<Rightarrow> string" where
  \<comment> \<open>\<open>s.strip()\<close>\<close>
  "py_strip s = rev (dropWhile is_space (rev (dropWhile is_space s)))"

definition non_space :: "string \<Rightarrow> string" where
  "non_space s = filter (\<lambda>c. \<not> is_space c) s"

definition len :: "string \<Rightarrow> int" where
  "len s = int (length s)"

section \<open>Chunker (embeddings.py)\<close>

text \<open>
  \<open>re.split(r"\n{2,}", text)\<close>: the separators are the maximal runs of two or more
  newlines. The first argument carries the characters of the piece being read, reversed.
\<close>

function re_split_blank_lines :: "string \<Rightarrow> string \<Rightarrow> string list" where
  "re_split_blank_lines acc [] = [rev acc]"
| "re_split_blank_lines acc (c # cs) =
     (if c = newline \<and> (case cs of [] \<Rightarrow> False | d # _ \<Rightarrow> d = newline)
      then rev acc # re_split_blank_lines [] (dropWhile (\<lambda>d. d = newline) cs)
      else re_split_blank_lines (c # acc) cs)"
  by pat_completeness auto
termination
  by (relation "measure (\<lambda>(acc, s). length s)")
     (auto simp: length_dropWhile_le less_Suc_eq_le)

text \<open>
  \<open>re.split(r"(?<=[.!?])\s+", s)\<close>: the separators are the maximal runs of whitespace
  that start right after one of \<open>.\<close>, \<open>!\<close>, \<open>?\<close>.
\<close>

function re_split_sentences :: "string \<Rightarrow> string \<Rightarrow> string list" where
  "re_split_sentences acc [] = [rev acc]"
| "re_split_sentences acc (c # cs) =
     (if is_space c \<and> (case acc of [] \<Rightarrow> False | p # _ \<Rightarrow> is_sentence_end p)
      then rev acc # re_split_sentences [] (dropWhile is_space cs)
      else re_split_sentences (c # acc) cs)"
  by pat_completeness auto
termination
  by (relation "measure (\<lambda>(acc, s). length s)")
     (auto simp: length_dropWhile_le less_Suc_eq_le)

definition paragraphs :: "string \<Rightarrow> string list" where
  \<comment> \<open>\<open>[p.strip() for p in re.split(r"\n{2,}", text) if p.strip()]\<close>\<close>
  "paragraphs text =
     map py_strip (filter (\<lambda>p. py_strip p \<noteq> []) (re_split_blank_lines [] text))"

text \<open>
  The inner loop over the sentences of a long paragraph. The result is the list of the
  chunks it appends, the flush after the loop included.
\<close>

fun pack_sentences :: "int \<Rightarrow> string \<Rightarrow> string list \<Rightarrow> string list" where
  "pack_sentences max_length buf [] = (if buf \<noteq> [] then [buf] else [])"
| "pack_sentences max_length buf (sent # rest) =
     (if sent = [] then pack_sentences max_length buf rest
      else if len buf + len sent + 1 \<le> max_length
      then pack_sentences max_length (py_strip (buf @ '' '' @ sent)) rest
      else (if buf \<noteq> [] then [buf] else []) @ pack_sentences max_length sent rest)"

definition chunks_of_paragraph :: "int \<Rightarrow> string \<Rightarrow> string list" where
  "chunks_of_paragraph max_length para =
     (if len para \<le> max_length then [para]
      else pack_sentences max_length [] (re_split_sentences [] para))"

definition first_pass :: "string \<Rightarrow> int \<Rightarrow> string list" where
  "first_pass text max_length = concat (map (chunks_of_paragraph max_length) (paragraphs text))"

text \<open>The second loop (``merge tiny chunks''), with its final flush.\<close>

fun merge_chunks :: "int \<Rightarrow> int \<Rightarrow> string \<Rightarrow> string list \<Rightarrow> string list" where
  "merge_chunks min_length max_length buf [] = (if buf \<noteq> [] then [buf] else [])"
| "merge_chunks min_length max_length buf (chunk # rest) =
     (if len buf + len chunk + 1 \<le> max_length \<and> (len buf < min_length \<or> len chunk < min_length)
      then merge_chunks min_length max_length (py_strip (buf @ '' '' @ chunk)) rest
      else (if buf \<noteq> [] then [buf] else [])
           @ chunk # merge_chunks min_length max_length [] rest)"

definition split_into_chunks :: "string \<Rightarrow> int \<Rightarrow> int \<Rightarrow> string list" where
  "split_into_chunks text min_length max_length =
     merge_chunks min_length max_length [] (first_pass text max_length)"

section \<open>Sequence matching (difflib.SequenceMatcher of the Python library)\<close>

text \<open>
  \<open>_check_answer\<close> calls \<open>difflib.SequenceMatcher(None, a, b).ratio()\<close>. The
  matcher is the library's: with no junk predicate, and with the automatic junk heuristic
  that, for a second sequence of 200 or more elements, drops from the index every element
  occurring more than \<open>len(b) // 100 + 1\<close> times.
\<close>

type_synonym match = "nat \<times> nat \<times> nat"

definition popular :: "string \<Rightarrow> char \<Rightarrow> bool" where
  "popular b elt = (200 \<le> length b \<and> length b div 100 + 1 < count_list b elt)"

definition b2j :: "string \<Rightarrow> char \<Rightarrow> nat list" where
  \<comment> \<open>the positions of \<open>elt\<close> in \<open>b\<close>, ascending; none for a popular element\<close>
  "b2j b elt = (if popular b elt then [] else filter (\<lambda>j. b ! j = elt) [0..<length b])"

text \<open>
  The inner loop of \<open>find_longest_match\<close> for the row \<open>i\<close>: \<open>j2len\<close> maps \<open>j\<close> to
  the length of the longest match ending with \<open>a[i-1]\<close>, \<open>b[j]\<close>; an absent key reads as
  0, and every stored length is positive.
\<close>

fun inner_loop ::
  "nat \<Rightarrow> (nat \<Rightarrow> nat) \<Rightarrow> nat list \<Rightarrow> (nat \<Rightarrow> nat) \<times> match \<Rightarrow> (nat \<Rightarrow> nat) \<times> match" where
  "inner_loop i j2len [] st = st"
| "inner_loop i j2len (j # js) (newj2len, (besti, bestj, bestsize)) =
     (let k = (if j = 0 then 0 else j2len (j - 1)) + 1
      in inner_loop i j2len js
           (newj2len(j := k),
            if bestsize < k then (i + 1 - k, j + 1 - k, k) else (besti, bestj, bestsize)))"

function outer_loop ::
  "string \<Rightarrow> string \<Rightarrow> nat \<Rightarrow> nat \<Rightarrow> nat \<Rightarrow> nat \<Rightarrow> (nat \<Rightarrow> nat) \<Rightarrow> match \<Rightarrow> match" where
  "outer_loop a b i ahi blo bhi j2len best =
     (if i < ahi
      then (case inner_loop i j2len
                   (filter (\<lambda>j. blo \<le> j) (takeWhile (\<lambda>j. j < bhi) (b2j b (a ! i))))
                   (\<lambda>_. 0, best) of
              (newj2len, best') \<Rightarrow> outer_loop a b (Suc i) ahi blo bhi newj2len best')
      else best)"
  by pat_completeness auto
termination
  by (relation "measure (\<lambda>(a, b, i, ahi, blo, bhi, j2len, best). ahi - i)") auto

declare outer_loop.simps [simp del]

function extend_left :: "string \<Rightarrow> string \<Rightarrow> nat \<Rightarrow> nat \<Rightarrow> match \<Rightarrow> match" where
  "extend_left a b alo blo (besti, bestj, bestsize) =
     (if alo < besti \<and> blo < bestj \<and> a ! (besti - 1) = b ! (bestj - 1)
      then extend_left a b alo blo (besti - 1, bestj - 1, bestsize + 1)
      else (besti, bestj, bestsize))"
  by pat_completeness auto
termination
  by (relation "measure (\<lambda>(a, b, alo, blo, besti, bestj, bestsize). besti)") auto

declare extend_left.simps [simp del]

function extend_right :: "string \<Rightarrow> string \<Rightarrow> nat \<Rightarrow> nat \<Rightarrow> match \<Rightarrow> match" where
  "extend_right a b ahi bhi (besti, bestj, bestsize) =
     (if besti + bestsize < ahi \<and> bestj + bestsize < bhi
         \<and> a ! (besti + bestsize) = b ! (bestj + bestsize)
      then extend_right a b ahi bhi (besti, bestj, bestsize + 1)
      else (besti, bestj, bestsize))"
  by pat_completeness auto
termination
  by (relation "measure (\<lambda>(a, b, ahi, bhi, besti, bestj, bestsize). ahi - (besti + bestsize))") auto

declare extend_right.simps [simp del]

definition find_longest_match :: "string \<Rightarrow> string \<Rightarrow> nat \<Rightarrow> nat \<Rightarrow> nat \<Rightarrow> nat \<Rightarrow> match" where
  \<comment> \<open>no element is junk, so the two loops that absorb junk never run\<close>
  "find_longest_match a b alo ahi blo bhi =
     extend_right a b ahi bhi
       (extend_left a b alo blo
          (outer_loop a b alo ahi blo bhi (\<lambda>_. 0) (alo, blo, 0)))"

text \<open>The longest match lies inside the range that was searched.\<close>

lemma inner_loop_bounds:
  assumes "\<forall>j. j2len j \<le> i - alo" "alo \<le> i" "i < ahi"
    "alo \<le> besti" "(bestsize = 0 \<and> besti = alo) \<or> besti + bestsize \<le> ahi"
    "inner_loop i j2len js (newj2len, (besti, bestj, bestsize)) = (new, (bi, bj, bs))"
    "\<forall>j. newj2len j \<le> Suc i - alo"
  shows "(\<forall>j. new j \<le> Suc i - alo) \<and> alo \<le> bi \<and> ((bs = 0 \<and> bi = alo) \<or> bi + bs \<le> ahi)"
  using assms
proof (induction js arbitrary: newj2len besti bestj bestsize)
  case Nil
  then show ?case by simp
next
  case (Cons j js)
  define k where "k = (if j = 0 then 0 else j2len (j - 1)) + 1"
  have "(if j = 0 then 0 else j2len (j - 1)) \<le> i - alo"
    using Cons.prems(1) by simp
  then have k: "k \<le> Suc i - alo" "0 < k"
    using Cons.prems(2) by (simp_all add: k_def Suc_diff_le)
  show ?case
  proof (cases "bestsize < k")
    case True
    have step: "inner_loop i j2len js (newj2len(j := k), (i + 1 - k, j + 1 - k, k)) = (new, (bi, bj, bs))"
      using Cons.prems(6) True by (simp add: k_def Let_def)
    have a: "alo \<le> i + 1 - k" using k Cons.prems(2) by linarith
    have b: "(k = 0 \<and> i + 1 - k = alo) \<or> i + 1 - k + k \<le> ahi" using k Cons.prems(2,3) by linarith
    have c: "\<forall>j'. (newj2len(j := k)) j' \<le> Suc i - alo" using Cons.prems(7) k by simp
    show ?thesis
      by (rule Cons.IH [OF Cons.prems(1,2,3) a b step c])
  next
    case False
    have step: "inner_loop i j2len js (newj2len(j := k), (besti, bestj, bestsize)) = (new, (bi, bj, bs))"
      using Cons.prems(6) False by (simp add: k_def Let_def)
    have c: "\<forall>j'. (newj2len(j := k)) j' \<le> Suc i - alo" using Cons.prems(7) k by simp
    show ?thesis
      by (rule Cons.IH [OF Cons.prems(1,2,3,4,5) step c])
  qed
qed

lemma outer_loop_bounds:
  "\<forall>j. j2len j \<le> i - alo \<Longrightarrow> alo \<le> i \<Longrightarrow> alo \<le> fst best \<Longrightarrow>
   (snd (snd best) = 0 \<and> fst best = alo) \<or> fst best + snd (snd best) \<le> ahi \<Longrightarrow>
   outer_loop a b i ahi blo bhi j2len best = (bi, bj, bs) \<Longrightarrow>
   alo \<le> bi \<and> ((bs = 0 \<and> bi = alo) \<or> bi + bs \<le> ahi)"
proof (induction a b i ahi blo bhi j2len best rule: outer_loop.induct)
  case (1 a b i ahi blo bhi j2len best)
  show ?case
  proof (cases "i < ahi")
    case False
    then have "outer_loop a b i ahi blo bhi j2len best = best"
      by (subst outer_loop.simps) simp
    with 1(6) have "best = (bi, bj, bs)" by simp
    with 1(4,5) show ?thesis by simp
  next
    case True
    obtain besti bestj bestsize where best: "best = (besti, bestj, bestsize)"
      by (cases best) auto
    define js where "js = filter (\<lambda>j. blo \<le> j) (takeWhile (\<lambda>j. j < bhi) (b2j b (a ! i)))"
    obtain new ni nj ns where
      inner: "inner_loop i j2len js (\<lambda>_. 0, (besti, bestj, bestsize)) = (new, (ni, nj, ns))"
      by (metis surj_pair)
    have p4: "alo \<le> besti" using 1(4) best by simp
    have p5: "(bestsize = 0 \<and> besti = alo) \<or> besti + bestsize \<le> ahi" using 1(5) best by simp
    have p7: "\<forall>j. (\<lambda>_. 0::nat) j \<le> Suc i - alo" by simp
    have ib: "(\<forall>j. new j \<le> Suc i - alo) \<and> alo \<le> ni \<and> ((ns = 0 \<and> ni = alo) \<or> ni + ns \<le> ahi)"
      by (rule inner_loop_bounds [OF 1(2,3) True p4 p5 inner p7])
    have "outer_loop a b i ahi blo bhi j2len best = outer_loop a b (Suc i) ahi blo bhi new (ni, nj, ns)"
      using True inner best by (subst outer_loop.simps) (simp add: js_def)
    then have rec: "outer_loop a b (Suc i) ahi blo bhi new (ni, nj, ns) = (bi, bj, bs)"
      using 1(6) by simp
    have inner': "(new, (ni, nj, ns)) = inner_loop i j2len
        (filter (\<lambda>j. blo \<le> j) (takeWhile (\<lambda>j. j < bhi) (b2j b (a ! i)))) (\<lambda>_. 0, best)"
      using inner best by (simp add: js_def)
    have q2: "alo \<le> Suc i" using 1(3) by simp
    have q1: "\<forall>j. new j \<le> Suc i - alo" using ib by simp
    have q3: "alo \<le> fst (ni, nj, ns)" using ib by simp
    have q4: "(snd (snd (ni, nj, ns)) = 0 \<and> fst (ni, nj, ns) = alo)
        \<or> fst (ni, nj, ns) + snd (snd (ni, nj, ns)) \<le> ahi" using ib by simp
    show ?thesis
      by (rule 1(1) [OF True inner' q1 q2 q3 q4 rec])
  qed
qed

lemma extend_left_bounds:
  "alo \<le> besti \<Longrightarrow> extend_left a b alo blo (besti, bestj, bestsize) = (bi, bj, bs) \<Longrightarrow>
   alo \<le> bi \<and> bi + bs = besti + bestsize \<and> bestsize \<le> bs"
proof (induction a b alo blo "(besti, bestj, bestsize)" arbitrary: besti bestj bestsize
       rule: extend_left.induct)
  case (1 a b alo blo besti bestj bestsize)
  show ?case
  proof (cases "alo < besti \<and> blo < bestj \<and> a ! (besti - 1) = b ! (bestj - 1)")
    case True
    then have "extend_left a b alo blo (besti, bestj, bestsize)
        = extend_left a b alo blo (besti - 1, bestj - 1, bestsize + 1)"
      by (subst extend_left.simps) simp
    then have rec: "extend_left a b alo blo (besti - 1, bestj - 1, bestsize + 1) = (bi, bj, bs)"
      using 1(3) by simp
    have le: "alo \<le> besti - 1" using True by linarith
    have "alo \<le> bi \<and> bi + bs = besti - 1 + (bestsize + 1) \<and> bestsize + 1 \<le> bs"
      by (rule 1(1) [OF True le rec])
    then show ?thesis using True by linarith
  next
    case False
    then have "extend_left a b alo blo (besti, bestj, bestsize) = (besti, bestj, bestsize)"
      by (subst extend_left.simps) auto
    with 1(2,3) show ?thesis by simp
  qed
qed

lemma extend_right_bounds:
  "extend_right a b ahi bhi (besti, bestj, bestsize) = (bi, bj, bs) \<Longrightarrow>
   bi = besti \<and> bestsize \<le> bs \<and> (bs = bestsize \<or> bi + bs \<le> ahi)"
proof (induction a b ahi bhi "(besti, bestj, bestsize)" arbitrary: besti bestj bestsize
       rule: extend_right.induct)
  case (1 a b ahi bhi besti bestj bestsize)
  show ?case
  proof (cases "besti + bestsize < ahi \<and> bestj + bestsize < bhi
         \<and> a ! (besti + bestsize) = b ! (bestj + bestsize)")
    case True
    then have "extend_right a b ahi bhi (besti, bestj, bestsize)
        = extend_right a b ahi bhi (besti, bestj, bestsize + 1)"
      by (subst extend_right.simps) simp
    then have rec: "extend_right a b ahi bhi (besti, bestj, bestsize + 1) = (bi, bj, bs)"
      using 1(2) by simp
    have "bi = besti \<and> bestsize + 1 \<le> bs \<and> (bs = bestsize + 1 \<or> bi + bs \<le> ahi)"
      by (rule 1(1) [OF True rec])
    then show ?thesis using True by linarith
  next
    case False
    then have "extend_right a b ahi bhi (besti, bestj, bestsize) = (besti, bestj, bestsize)"
      by (subst extend_right.simps) auto
    with 1(2) show ?thesis by simp
  qed
qed

lemma find_longest_match_bounds:
  assumes "find_longest_match a b alo ahi blo bhi = (i, j, k)" "k \<noteq> 0"
  shows "alo \<le> i \<and> i + k \<le> ahi"
proof -
  obtain i1 j1 k1 where o: "outer_loop a b alo ahi blo bhi (\<lambda>_. 0) (alo, blo, 0) = (i1, j1, k1)"
    by (metis surj_pair)
  obtain i2 j2 k2 where l: "extend_left a b alo blo (i1, j1, k1) = (i2, j2, k2)"
    by (metis surj_pair)
  have r: "extend_right a b ahi bhi (i2, j2, k2) = (i, j, k)"
    using assms(1) o l by (simp add: find_longest_match_def)
  have 1: "alo \<le> i1 \<and> ((k1 = 0 \<and> i1 = alo) \<or> i1 + k1 \<le> ahi)"
    by (rule outer_loop_bounds [where i = alo and j2len = "\<lambda>_. 0" and best = "(alo, blo, 0)", OF _ _ _ _ o])
       simp_all
  then have a1: "alo \<le> i1" by simp
  have 2: "alo \<le> i2 \<and> i2 + k2 = i1 + k1 \<and> k1 \<le> k2"
    by (rule extend_left_bounds [OF a1 l])
  have 3: "i = i2 \<and> k2 \<le> k \<and> (k = k2 \<or> i + k \<le> ahi)"
    by (rule extend_right_bounds [OF r])
  show ?thesis using 1 2 3 assms(2) by linarith
qed

text \<open>
  The sum of the sizes of the matching blocks of \<open>get_matching_blocks\<close>: the longest
  match of the range, then the blocks to its left and to its right. The library keeps the
  ranges still to do in a queue; the sum does not depend on the order. The recursion
  terminates by the bounds on the longest match proved above.
\<close>

function count_matches :: "string \<Rightarrow> string \<Rightarrow> nat \<Rightarrow> nat \<Rightarrow> nat \<Rightarrow> nat \<Rightarrow> nat" where
  "count_matches a b alo ahi blo bhi =
     (case find_longest_match a b alo ahi blo bhi of
        (i, j, k) \<Rightarrow>
          if k = 0 then 0
          else k
               + (if alo < i \<and> blo < j then count_matches a b alo i blo j else 0)
               + (if i + k < ahi \<and> j + k < bhi then count_matches a b (i + k) ahi (j + k) bhi else 0))"
  by pat_completeness auto
termination
  apply (relation "measure (\<lambda>(a, b, alo, ahi, blo, bhi). ahi - alo)")
    apply simp
  subgoal for a b alo ahi blo bhi i y j k
    using find_longest_match_bounds [of a b alo ahi blo bhi i j k] by simp arith
  subgoal for a b alo ahi blo bhi i y j k
    using find_longest_match_bounds [of a b alo ahi blo bhi i j k] by simp arith
  done

declare count_matches.simps [simp del]

text \<open>
  \<open>ratio()\<close> is \<open>2.0 * matches / length\<close> in double precision. It is modelled as
  the exact quotient: the comparison with \<open>0.6\<close> that the caller makes has the same
  outcome in both, since double division is correctly rounded and monotone, \<open>0.6\<close>
  denotes the double nearest to \<open>3/5\<close>, and a quotient \<open>2M/T\<close> other than \<open>3/5\<close>
  differs from it by at least \<open>1/(5T)\<close>, far more than a rounding error for every
  \<open>T\<close> below \<open>10\<^sup>1\<^sup>5\<close>.
\<close>

definition ratio :: "string \<Rightarrow> string \<Rightarrow> rat" where
  "ratio a b =
     (let matches = count_matches a b 0 (length a) 0 (length b);
          length = length a + length b
      in if length \<noteq> 0 then 2 * of_nat matches / of_nat length else 1)"

section \<open>Quiz engine (quiz.py)\<close>

subsection \<open>String operations of Python used by the quiz\<close>

definition lower_char :: "char \<Rightarrow> char" where
  \<comment> \<open>\<open>str.lower\<close> on one code point below 256\<close>
  "lower_char c =
     (let n = (of_char c :: nat)
      in if (65 \<le> n \<and> n \<le> 90) \<or> (192 \<le> n \<and> n \<le> 222 \<and> n \<noteq> 215)
         then char_of (n + 32) else c)"

definition py_lower :: "string \<Rightarrow> string" where
  "py_lower s = map lower_char s"

definition is_alnum :: "char \<Rightarrow> bool" where
  \<comment> \<open>the class \<open>[A-Za-z0-9]\<close>\<close>
  "is_alnum c =
     (let n = (of_char c :: nat)
      in (48 \<le> n \<and> n \<le> 57) \<or> (65 \<le> n \<and> n \<le> 90) \<or> (97 \<le> n \<and> n \<le> 122))"

text \<open>\<open>s.split()\<close>: the maximal runs of non-whitespace characters.\<close>

fun py_split_from :: "string \<Rightarrow> string \<Rightarrow> string list" where
  "py_split_from acc [] = (if acc = [] then [] else [rev acc])"
| "py_split_from acc (c # cs) =
     (if is_space c then (if acc = [] then [] else [rev acc]) @ py_split_from [] cs
      else py_split_from (c # acc) cs)"

definition py_split :: "string \<Rightarrow> string list" where
  "py_split s = py_split_from [] s"

text \<open>\<open>sub in s\<close> on strings.\<close>

fun py_in :: "string \<Rightarrow> string \<Rightarrow> bool" where
  "py_in sub [] = (sub = [])"
| "py_in sub (c # cs) = (take (length sub) (c # cs) = sub \<or> py_in sub cs)"

text \<open>
  \<open>max(xs, key=f)\<close> on a non-empty list keeps the first element whose key is maximal:
  the candidate is replaced only by an element with a strictly larger key.
\<close>

fun max_from :: "('a \<Rightarrow> nat) \<Rightarrow> 'a \<Rightarrow> 'a list \<Rightarrow> 'a" where
  "max_from f best [] = best"
| "max_from f best (x # xs) = max_from f (if f best < f x then x else best) xs"

text \<open>
  What ``the one with the largest key, the first one on a tie'' means for an element
  \<open>x\<close> of a list: no element has a larger key, and every element before the first
  occurrence of \<open>x\<close> has a strictly smaller one.
\<close>

definition is_first_max :: "('a \<Rightarrow> nat) \<Rightarrow> 'a list \<Rightarrow> 'a \<Rightarrow> bool" where
  "is_first_max f xs x =
     (x \<in> set xs \<and> list_all (\<lambda>y. f y \<le> f x) xs
      \<and> list_all (\<lambda>y. f y < f x) (takeWhile (\<lambda>y. y \<noteq> x) xs))"

subsection \<open>Questions\<close>

datatype error = KeyError | IndexError | EOFError | ZeroDivisionError

text \<open>The field \<open>text\<close> of the source is \<open>text'\<close> here.\<close>

record question =
  text' :: string
  answer :: string
  difficulty :: int

definition question_template :: "string \<Rightarrow> string" where
  "question_template keyword =
     ''What does the term '' @ [CHR 0x27] @ keyword @ [CHR 0x27] @ '' refer to in this context?''"

definition sentences_of :: "string \<Rightarrow> string list" where
  \<comment> \<open>\<open>[s.strip() for s in re.split(r"(?<=[.!?])\s+", self_chunk) if s.strip()]\<close>\<close>
  "sentences_of self_chunk =
     map py_strip (filter (\<lambda>s. py_strip s \<noteq> []) (re_split_sentences [] self_chunk))"

definition words_of :: "string \<Rightarrow> string list" where
  \<comment> \<open>the tokens of the sentence without their characters outside \<open>[A-Za-z0-9]\<close>, the empty ones dropped\<close>
  "words_of sentence = filter (\<lambda>w. w \<noteq> []) (map (filter is_alnum) (py_split sentence))"

definition generate_question_from_chunk :: "string \<Rightarrow> (string \<times> string \<times> int) option" where
  "generate_question_from_chunk self_chunk =
     (case sentences_of self_chunk of
        [] \<Rightarrow> None
      | s # ss \<Rightarrow>
          (let sentence = max_from length s ss
           in case words_of sentence of
                [] \<Rightarrow> None
              | w # ws \<Rightarrow>
                  (let keyword = max_from length w ws
                   in Some (question_template keyword, py_strip sentence,
                            int (length (py_split self_chunk))))))"

definition difficulty_from_length :: "int \<Rightarrow> int" where
  "difficulty_from_length word_count =
     (if word_count \<le> 40 then 0 else if word_count \<le> 100 then 1 else 2)"

subsection \<open>Grading\<close>

definition check_answer :: "string \<Rightarrow> string \<Rightarrow> bool" where
  "check_answer user correct =
     (let user_norm = py_lower (py_strip user);
          correct_norm = py_lower (py_strip correct)
      in if user_norm = [] \<or> correct_norm = [] then False
         else 6 / 10 \<le> ratio user_norm correct_norm)"

subsection \<open>Session state\<close>

text \<open>
  \<open>questions_by_level\<close> is a dict whose keys keep their insertion order, which the
  level reselection iterates: an association list. Its lists are changed in place, under
  their keys.
\<close>

type_synonym buckets = "(int \<times> question list) list"

record session =
  raw_notes :: string
  topic :: "string option"
  min_chunk_length :: int
  max_chunk_length :: int
  questions_by_level :: buckets
  current_level :: int
  correct_count :: int
  incorrect_count :: int

definition well_formed :: "session \<Rightarrow> bool" where
  \<comment> \<open>the three buckets under their keys, in the order of their creation, and a level among them\<close>
  "well_formed s =
     (map fst (questions_by_level s) = [0, 1, 2] \<and> 0 \<le> current_level s \<and> current_level s \<le> 2)"

definition dict_get :: "buckets \<Rightarrow> int \<Rightarrow> error + question list" where
  "dict_get d k = (case map_of d k of None \<Rightarrow> Inl KeyError | Some v \<Rightarrow> Inr v)"

definition dict_modify :: "int \<Rightarrow> (question list \<Rightarrow> question list) \<Rightarrow> buckets \<Rightarrow> buckets" where
  "dict_modify k f d = map (\<lambda>(k', v). (k', if k' = k then f v else v)) d"

definition topic_skips :: "string option \<Rightarrow> string \<Rightarrow> bool" where
  \<comment> \<open>\<open>self.topic and self.topic.lower() not in chunk.lower()\<close>\<close>
  "topic_skips tp chunk =
     (case tp of None \<Rightarrow> False
      | Some t \<Rightarrow> t \<noteq> [] \<and> \<not> py_in (py_lower t) (py_lower chunk))"

fun add_questions :: "string option \<Rightarrow> string list \<Rightarrow> buckets \<Rightarrow> error + buckets" where
  "add_questions tp [] qbl = Inr qbl"
| "add_questions tp (chunk # rest) qbl =
     (if topic_skips tp chunk then add_questions tp rest qbl
      else case generate_question_from_chunk chunk of
             None \<Rightarrow> add_questions tp rest qbl
           | Some (q_text, a_text, diff_score) \<Rightarrow>
               (let diff_level = difficulty_from_length diff_score
                in case dict_get qbl diff_level of
                     Inl e \<Rightarrow> Inl e
                   | Inr _ \<Rightarrow>
                       add_questions tp rest
                         (dict_modify diff_level
                            (\<lambda>qs. qs @ [\<lparr>text' = q_text, answer = a_text, difficulty = diff_level\<rparr>])
                            qbl)))"

text \<open>
  \<open>random.shuffle\<close> is the parameter \<open>shuffle\<close>: the rearrangement it makes of the
  bucket of each level.
\<close>

definition prepare_questions ::
  "(int \<Rightarrow> question list \<Rightarrow> question list) \<Rightarrow> session \<Rightarrow> error + session" where
  "prepare_questions shuffle s =
     (case add_questions (topic s)
             (split_into_chunks (raw_notes s) (min_chunk_length s) (max_chunk_length s))
             (questions_by_level s) of
        Inl e \<Rightarrow> Inl e
      | Inr qbl \<Rightarrow>
          Inr (s\<lparr>questions_by_level := map (\<lambda>(level, qs). (level, shuffle level qs)) qbl\<rparr>))"

definition init_session ::
  "(int \<Rightarrow> question list \<Rightarrow> question list) \<Rightarrow> string \<Rightarrow> string option \<Rightarrow> int \<Rightarrow> int
     \<Rightarrow> error + session" where
  "init_session shuffle notes tp min_len max_len =
     prepare_questions shuffle
       \<lparr>raw_notes = notes, topic = tp, min_chunk_length = min_len, max_chunk_length = max_len,
        questions_by_level = [(0, []), (1, []), (2, [])],
        current_level = 1, correct_count = 0, incorrect_count = 0\<rparr>"

subsection \<open>The interactive loop\<close>

text \<open>
  The console is part of the state: the lines still to be read by \<open>input\<close> and the
  messages written so far. A message is its template with the values it shows; the
  accuracy carries the exact quotient, the rendering \<open>:.1f\<close> is not modelled. The
  prompt of \<open>input\<close> is written whether or not \<open>quiet\<close> is set.
\<close>

datatype message =
    NoMoreQuestions
  | QuestionHeader int int int
  | QuestionText string
  | Prompt
  | MsgCorrect
  | MsgIncorrect string
  | QuizComplete
  | Attempted int
  | CorrectAnswers int
  | IncorrectAnswers int
  | Accuracy rat

record world =
  sess :: session
  stdin :: "string list"
  stdout :: "message list"

datatype status = Running | Broke | Raised error

definition say :: "bool \<Rightarrow> message list \<Rightarrow> world \<Rightarrow> world" where
  \<comment> \<open>\<open>if not quiet: print(...)\<close>\<close>
  "say quiet msgs w = (if quiet then w else w\<lparr>stdout := stdout w @ msgs\<rparr>)"

definition remaining_levels :: "buckets \<Rightarrow> int list" where
  "remaining_levels qbl = map fst (filter (\<lambda>(lvl, qs). qs \<noteq> []) qbl)"

definition bucket_size :: "buckets \<Rightarrow> int \<Rightarrow> nat" where
  \<comment> \<open>the key of \<open>max\<close>; it is only applied to keys of the dict\<close>
  "bucket_size qbl l = (case map_of qbl l of None \<Rightarrow> 0 | Some qs \<Rightarrow> length qs)"

text \<open>
  The start of an iteration: nothing to do while the bucket of the current level has a
  question; otherwise the loop breaks (\<open>None\<close>) or the level is reselected.
\<close>

definition choose_level :: "session \<Rightarrow> error + session option" where
  "choose_level s =
     (case dict_get (questions_by_level s) (current_level s) of
        Inl e \<Rightarrow> Inl e
      | Inr qs \<Rightarrow>
          if qs = [] then
            (case remaining_levels (questions_by_level s) of
               [] \<Rightarrow> Inr None
             | l # ls \<Rightarrow>
                 Inr (Some (s\<lparr>current_level :=
                                 max_from (bucket_size (questions_by_level s)) l ls\<rparr>)))
          else Inr (Some s))"

definition record_answer :: "bool \<Rightarrow> session \<Rightarrow> session" where
  "record_answer is_correct s =
     (if is_correct
      then s\<lparr>correct_count := correct_count s + 1,
             current_level := (if current_level s < 2 then current_level s + 1
                               else current_level s)\<rparr>
      else s\<lparr>incorrect_count := incorrect_count s + 1,
             current_level := (if current_level s > 0 then current_level s - 1
                               else current_level s)\<rparr>)"

text \<open>Popping, asking, reading and grading one question, at index \<open>i\<close> of the loop.\<close>

definition serve :: "int \<Rightarrow> int \<Rightarrow> bool \<Rightarrow> world \<Rightarrow> status \<times> world" where
  "serve i num_questions quiet w =
     (let s = sess w in
      case dict_get (questions_by_level s) (current_level s) of
        Inl e \<Rightarrow> (Raised e, w)
      | Inr qs \<Rightarrow>
          if qs = [] then (Raised IndexError, w)
          else
            (let q = last qs;
                 s1 = s\<lparr>questions_by_level :=
                          dict_modify (current_level s) butlast (questions_by_level s)\<rparr>;
                 w1 = say quiet [QuestionHeader (i + 1) num_questions (current_level s1),
                                 QuestionText (text' q)] (w\<lparr>sess := s1\<rparr>);
                 w2 = w1\<lparr>stdout := stdout w1 @ [Prompt]\<rparr>
             in case stdin w2 of
                  [] \<Rightarrow> (Raised EOFError, w2)
                | user_answer # unread \<Rightarrow>
                    if check_answer user_answer (answer q)
                    then (Running,
                          (say quiet [MsgCorrect] (w2\<lparr>stdin := unread\<rparr>))
                            \<lparr>sess := record_answer True s1\<rparr>)
                    else (Running,
                          (say quiet [MsgIncorrect (answer q)] (w2\<lparr>stdin := unread\<rparr>))
                            \<lparr>sess := record_answer False s1\<rparr>)))"

definition ask_iteration :: "int \<Rightarrow> int \<Rightarrow> bool \<Rightarrow> world \<Rightarrow> status \<times> world" where
  "ask_iteration i num_questions quiet w =
     (case choose_level (sess w) of
        Inl e \<Rightarrow> (Raised e, w)
      | Inr None \<Rightarrow> (Broke, say quiet [NoMoreQuestions] w)
      | Inr (Some s) \<Rightarrow> serve i num_questions quiet (w\<lparr>sess := s\<rparr>))"

fun ask_loop :: "int \<Rightarrow> bool \<Rightarrow> nat list \<Rightarrow> world \<Rightarrow> status \<times> world" where
  "ask_loop num_questions quiet [] w = (Running, w)"
| "ask_loop num_questions quiet (i # rest) w =
     (case ask_iteration (int i) num_questions quiet w of
        (Running, w') \<Rightarrow> ask_loop num_questions quiet rest w'
      | (st, w') \<Rightarrow> (st, w'))"

definition py_truediv :: "int \<Rightarrow> int \<Rightarrow> error + rat" where
  \<comment> \<open>\<open>x / y\<close> on ints, as an exact quotient\<close>
  "py_truediv x y = (if y = 0 then Inl ZeroDivisionError else Inr (of_int x / of_int y))"

definition print_summary :: "int \<Rightarrow> world \<Rightarrow> error option \<times> world" where
  "print_summary num_questions w =
     (let s = sess w;
          total_answered = correct_count s + incorrect_count s;
          w1 = w\<lparr>stdout := stdout w @ [QuizComplete, Attempted total_answered,
                                        CorrectAnswers (correct_count s),
                                        IncorrectAnswers (incorrect_count s)]\<rparr>
      in if total_answered \<noteq> 0
         then (case py_truediv (100 * correct_count s) total_answered of
                 Inl e \<Rightarrow> (Some e, w1)
               | Inr accuracy \<Rightarrow> (None, w1\<lparr>stdout := stdout w1 @ [Accuracy accuracy]\<rparr>))
         else (None, w1))"

definition ask :: "int \<Rightarrow> bool \<Rightarrow> world \<Rightarrow> error option \<times> world" where
  "ask num_questions quiet w =
     (case ask_loop num_questions quiet [0..<nat num_questions] w of
        (Raised e, w') \<Rightarrow> (Some e, w')
      | (_, w') \<Rightarrow> if quiet then (None, w') else print_summary num_questions w')"

section \<open>Properties of the chunker\<close>

subsection \<open>Whitespace and trimming\<close>

lemma is_space_newline [simp]: "is_space newline"
  by (simp add: is_space_def newline_def)

lemma is_space_blank [simp]: "is_space (CHR '' '')"
  by (simp add: is_space_def)

lemma sentence_end_not_space: "is_sentence_end c \<Longrightarrow> \<not> is_space c"
  by (auto simp: is_sentence_end_def is_space_def)

lemma non_space_append [simp]: "non_space (xs @ ys) = non_space xs @ non_space ys"
  by (simp add: non_space_def)

lemma non_space_Nil [simp]: "non_space [] = []"
  by (simp add: non_space_def)

lemma non_space_Cons: "non_space (c # cs) = (if is_space c then non_space cs else c # non_space cs)"
  by (simp add: non_space_def)

lemma non_space_rev: "non_space (rev xs) = rev (non_space xs)"
  by (simp add: non_space_def rev_filter)

lemma non_space_dropWhile:
  "(\<And>c. P c \<Longrightarrow> is_space c) \<Longrightarrow> non_space (dropWhile P xs) = non_space xs"
  by (induction xs) (auto simp: non_space_Cons)

lemma non_space_strip [simp]: "non_space (py_strip s) = non_space s"
  by (simp add: py_strip_def non_space_rev non_space_dropWhile)

lemma non_space_split_blank:
  "non_space (concat (re_split_blank_lines acc s)) = non_space (rev acc @ s)"
proof (induction acc s rule: re_split_blank_lines.induct)
  case (1 acc)
  show ?case by simp
next
  case (2 acc c cs)
  show ?case
  proof (cases "c = newline \<and> (case cs of [] \<Rightarrow> False | d # _ \<Rightarrow> d = newline)")
    case True
    have "non_space (dropWhile (\<lambda>d. d = newline) cs) = non_space cs"
      by (rule non_space_dropWhile) simp
    moreover have "non_space (concat (re_split_blank_lines [] (dropWhile (\<lambda>d. d = newline) cs)))
        = non_space (rev [] @ dropWhile (\<lambda>d. d = newline) cs)"
      using 2(1) True by blast
    ultimately show ?thesis using True by (simp add: non_space_Cons)
  next
    case False
    have "non_space (concat (re_split_blank_lines (c # acc) cs)) = non_space (rev (c # acc) @ cs)"
      using 2(2) False by blast
    moreover have "re_split_blank_lines acc (c # cs) = re_split_blank_lines (c # acc) cs"
      using False by auto
    ultimately show ?thesis by simp
  qed
qed

lemma non_space_split_sentences:
  "non_space (concat (re_split_sentences acc s)) = non_space (rev acc @ s)"
proof (induction acc s rule: re_split_sentences.induct)
  case (1 acc)
  show ?case by simp
next
  case (2 acc c cs)
  show ?case
  proof (cases "is_space c \<and> (case acc of [] \<Rightarrow> False | p # _ \<Rightarrow> is_sentence_end p)")
    case True
    have "non_space (dropWhile is_space cs) = non_space cs"
      by (rule non_space_dropWhile) simp
    moreover have "non_space (concat (re_split_sentences [] (dropWhile is_space cs)))
        = non_space (rev [] @ dropWhile is_space cs)"
      using 2(1) True by blast
    ultimately show ?thesis using True by (simp add: non_space_Cons)
  next
    case False
    have "non_space (concat (re_split_sentences (c # acc) cs)) = non_space (rev (c # acc) @ cs)"
      using 2(2) False by blast
    moreover have "re_split_sentences acc (c # cs) = re_split_sentences (c # acc) cs"
      using False by auto
    ultimately show ?thesis by simp
  qed
qed

lemma non_space_empty_strip: "py_strip p = [] \<Longrightarrow> non_space p = []"
  using non_space_strip [of p] by simp

lemma non_space_strip_pieces:
  "non_space (concat (map py_strip (filter (\<lambda>p. py_strip p \<noteq> []) ps))) = non_space (concat ps)"
  by (induction ps) (auto simp: non_space_empty_strip)

lemma non_space_paragraphs: "non_space (concat (paragraphs text)) = non_space text"
  by (simp add: paragraphs_def non_space_strip_pieces non_space_split_blank)

lemma non_space_pack:
  "non_space (concat (pack_sentences max_length buf sents)) = non_space (buf @ concat sents)"
  by (induction sents arbitrary: buf) (auto simp: non_space_Cons)

lemma non_space_chunks_of_paragraph:
  "non_space (concat (chunks_of_paragraph max_length para)) = non_space para"
  by (simp add: chunks_of_paragraph_def non_space_pack non_space_split_sentences)

lemma non_space_concat_map:
  "(\<And>x. non_space (concat (f x)) = non_space (g x)) \<Longrightarrow>
   non_space (concat (concat (map f xs))) = non_space (concat (map g xs))"
  by (induction xs) auto

lemma non_space_first_pass: "non_space (concat (first_pass text max_length)) = non_space text"
proof -
  have "non_space (concat (first_pass text max_length))
          = non_space (concat (map (\<lambda>p. p) (paragraphs text)))"
    unfolding first_pass_def
    by (rule non_space_concat_map) (rule non_space_chunks_of_paragraph)
  then show ?thesis by (simp add: non_space_paragraphs)
qed

lemma non_space_merge:
  "non_space (concat (merge_chunks min_length max_length buf chunks))
     = non_space (buf @ concat chunks)"
  by (induction chunks arbitrary: buf) (auto simp: non_space_Cons)

lemma strip_ends: "py_strip s = [] \<or> (\<not> is_space (hd (py_strip s)) \<and> \<not> is_space (last (py_strip s)))"
proof -
  define t where "t = dropWhile is_space s"
  define u where "u = dropWhile is_space (rev t)"
  have r: "py_strip s = rev u" by (simp add: py_strip_def t_def u_def)
  show ?thesis
  proof (cases "u = []")
    case True
    then show ?thesis by (simp add: r)
  next
    case False
    then have hu: "\<not> is_space (hd u)" unfolding u_def by (rule hd_dropWhile)
    have "hd u \<in> set u" using False by simp
    then have "hd u \<in> set (rev t)" unfolding u_def by (rule set_dropWhileD)
    then have "last (dropWhile is_space (rev t)) = last (rev t)"
      using hu by (rule dropWhile_last)
    then have "last u = last (rev t)" by (simp only: u_def)
    moreover have "t \<noteq> []"
    proof
      assume "t = []"
      then have "u = []" by (simp add: u_def)
      with False show False by simp
    qed
    ultimately have "last u = hd t" by (simp add: last_rev)
    moreover have "\<not> is_space (hd t)" using \<open>t \<noteq> []\<close> unfolding t_def by (rule hd_dropWhile)
    ultimately show ?thesis using hu False by (simp add: r hd_rev last_rev)
  qed
qed

lemma strip_fixed_iff:
  "py_strip s = s \<longleftrightarrow> s = [] \<or> (\<not> is_space (hd s) \<and> \<not> is_space (last s))"
proof
  assume "py_strip s = s"
  with strip_ends [of s] show "s = [] \<or> (\<not> is_space (hd s) \<and> \<not> is_space (last s))"
    by (simp only:)
next
  assume a: "s = [] \<or> (\<not> is_space (hd s) \<and> \<not> is_space (last s))"
  show "py_strip s = s"
  proof (cases "s = []")
    case True
    then show ?thesis by (simp add: py_strip_def)
  next
    case False
    with a have h: "\<not> is_space (hd s)" and l: "\<not> is_space (last s)" by auto
    have 1: "dropWhile is_space s = s" using h by (simp add: dropWhile_eq_self_iff)
    have 2: "dropWhile is_space (rev s) = rev s"
      using l False by (simp add: dropWhile_eq_self_iff hd_rev)
    show ?thesis by (simp add: py_strip_def 1 2)
  qed
qed

lemma strip_idem [simp]: "py_strip (py_strip s) = py_strip s"
  by (rule iffD2 [OF strip_fixed_iff strip_ends])

lemma split_sentences_stripped:
  "rev acc @ s \<noteq> [] \<Longrightarrow> \<not> is_space (hd (rev acc @ s)) \<Longrightarrow> \<not> is_space (last (rev acc @ s)) \<Longrightarrow>
   p \<in> set (re_split_sentences acc s) \<Longrightarrow> p \<noteq> [] \<and> py_strip p = p"
proof (induction acc s rule: re_split_sentences.induct)
  case (1 acc)
  then have "p = rev acc" and "rev acc \<noteq> []"
    and "\<not> is_space (hd (rev acc))" and "\<not> is_space (last (rev acc))" by simp_all
  then show ?case using strip_fixed_iff [of "rev acc"] by blast
next
  case (2 acc c cs)
  show ?case
  proof (cases "is_space c \<and> (case acc of [] \<Rightarrow> False | p # _ \<Rightarrow> is_sentence_end p)")
    case True
    then obtain q qs where acc: "acc = q # qs" and q: "is_sentence_end q" and c: "is_space c"
      by (auto split: list.splits)
    have eq: "re_split_sentences acc (c # cs) = rev acc # re_split_sentences [] (dropWhile is_space cs)"
      using True by simp
    have ne: "rev acc \<noteq> []" using acc by simp
    then have "hd (rev acc @ c # cs) = hd (rev acc)" by simp
    then have h: "\<not> is_space (hd (rev acc))" using 2(4) by simp
    have "last (rev acc) = q" using acc by simp
    then have l: "\<not> is_space (last (rev acc))" using q sentence_end_not_space by simp
    have piece: "rev acc \<noteq> [] \<and> py_strip (rev acc) = rev acc"
      using ne h l strip_fixed_iff [of "rev acc"] by blast
    have cs: "cs \<noteq> []" using 2(5) c by auto
    then have lcs: "\<not> is_space (last cs)" using 2(5) by simp
    have "last cs \<in> set cs" using cs by simp
    then have ld: "last (dropWhile is_space cs) = last cs" using lcs by (rule dropWhile_last)
    have dne: "dropWhile is_space cs \<noteq> []" using cs lcs \<open>last cs \<in> set cs\<close> by auto
    have hd: "\<not> is_space (hd (dropWhile is_space cs))" using dne by (rule hd_dropWhile)
    show ?thesis
    proof (cases "p = rev acc")
      case True
      with piece show ?thesis by simp
    next
      case False
      with 2(6) eq have "p \<in> set (re_split_sentences [] (dropWhile is_space cs))" by simp
      moreover have "rev [] @ dropWhile is_space cs \<noteq> []" using dne by simp
      moreover have "\<not> is_space (hd (rev [] @ dropWhile is_space cs))" using hd by simp
      moreover have "\<not> is_space (last (rev [] @ dropWhile is_space cs))" using ld lcs by simp
      ultimately show ?thesis using 2(1) True by blast
    qed
  next
    case False
    have eq: "re_split_sentences acc (c # cs) = re_split_sentences (c # acc) cs"
      using False by auto
    have m: "p \<in> set (re_split_sentences (c # acc) cs)" using 2(6) eq by simp
    have r: "rev (c # acc) @ cs = rev acc @ c # cs" by simp
    show ?thesis
      by (rule 2(2) [OF False _ _ _ m]) (simp_all only: r 2(3,4,5) not_False_eq_True)
  qed
qed

lemma paragraphs_stripped: "p \<in> set (paragraphs text) \<Longrightarrow> p \<noteq> [] \<and> py_strip p = p"
  by (auto simp: paragraphs_def)

lemma pack_stripped:
  "py_strip buf = buf \<Longrightarrow> (\<And>s. s \<in> set sents \<Longrightarrow> py_strip s = s) \<Longrightarrow>
   c \<in> set (pack_sentences max_length buf sents) \<Longrightarrow> c \<noteq> [] \<and> py_strip c = c"
proof (induction sents arbitrary: buf)
  case Nil
  then show ?case by (simp split: if_splits)
next
  case (Cons sent rest)
  have rest: "\<And>s. s \<in> set rest \<Longrightarrow> py_strip s = s" using Cons.prems(2) by simp
  have sent: "py_strip sent = sent" using Cons.prems(2) by simp
  show ?case
  proof (cases "sent = []")
    case True
    with Cons.prems(3) have "c \<in> set (pack_sentences max_length buf rest)" by simp
    with Cons.IH [OF Cons.prems(1) rest] show ?thesis by blast
  next
    case ne: False
    show ?thesis
    proof (cases "len buf + len sent + 1 \<le> max_length")
      case True
      with ne Cons.prems(3)
      have "c \<in> set (pack_sentences max_length (py_strip (buf @ '' '' @ sent)) rest)" by simp
      with Cons.IH [OF strip_idem rest] show ?thesis by blast
    next
      case False
      with ne Cons.prems(3)
      have "(c = buf \<and> buf \<noteq> []) \<or> c \<in> set (pack_sentences max_length sent rest)"
        by (auto split: if_splits)
      then show ?thesis
      proof
        assume "c = buf \<and> buf \<noteq> []"
        then show ?thesis using Cons.prems(1) by simp
      next
        assume "c \<in> set (pack_sentences max_length sent rest)"
        with Cons.IH [OF sent rest] show ?thesis by blast
      qed
    qed
  qed
qed

lemma chunks_of_paragraph_stripped:
  assumes "para \<noteq> []" "py_strip para = para" "c \<in> set (chunks_of_paragraph max_length para)"
  shows "c \<noteq> [] \<and> py_strip c = c"
proof (cases "len para \<le> max_length")
  case True
  with assms show ?thesis by (simp add: chunks_of_paragraph_def)
next
  case False
  have ends: "\<not> is_space (hd para) \<and> \<not> is_space (last para)"
    using assms(1,2) by (simp add: strip_fixed_iff)
  have s: "\<And>s. s \<in> set (re_split_sentences [] para) \<Longrightarrow> py_strip s = s"
    using split_sentences_stripped [of "[]" para] assms(1) ends by simp
  have e: "py_strip [] = []" by (simp add: py_strip_def)
  have m: "c \<in> set (pack_sentences max_length [] (re_split_sentences [] para))"
    using assms(3) False by (simp add: chunks_of_paragraph_def)
  show ?thesis by (rule pack_stripped [OF e s m])
qed

lemma first_pass_stripped:
  assumes "c \<in> set (first_pass text max_length)"
  shows "c \<noteq> [] \<and> py_strip c = c"
proof -
  from assms obtain para where p: "para \<in> set (paragraphs text)"
    and c: "c \<in> set (chunks_of_paragraph max_length para)"
    by (auto simp: first_pass_def)
  from paragraphs_stripped [OF p] have "para \<noteq> []" and "py_strip para = para" by simp_all
  then show ?thesis using c by (rule chunks_of_paragraph_stripped)
qed

lemma merge_stripped:
  "py_strip buf = buf \<Longrightarrow> (\<And>s. s \<in> set chunks \<Longrightarrow> s \<noteq> [] \<and> py_strip s = s) \<Longrightarrow>
   c \<in> set (merge_chunks min_length max_length buf chunks) \<Longrightarrow> c \<noteq> [] \<and> py_strip c = c"
proof (induction chunks arbitrary: buf)
  case Nil
  then show ?case by (simp split: if_splits)
next
  case (Cons chunk rest)
  have rest: "\<And>s. s \<in> set rest \<Longrightarrow> s \<noteq> [] \<and> py_strip s = s" using Cons.prems(2) by simp
  have chunk: "chunk \<noteq> [] \<and> py_strip chunk = chunk" using Cons.prems(2) by simp
  have emp: "py_strip [] = []" by (simp add: py_strip_def)
  show ?case
  proof (cases "len buf + len chunk + 1 \<le> max_length \<and> (len buf < min_length \<or> len chunk < min_length)")
    case True
    with Cons.prems(3)
    have "c \<in> set (merge_chunks min_length max_length (py_strip (buf @ '' '' @ chunk)) rest)"
      by auto
    with Cons.IH [OF strip_idem rest] show ?thesis by blast
  next
    case False
    with Cons.prems(3)
    have "(c = buf \<and> buf \<noteq> []) \<or> c = chunk \<or> c \<in> set (merge_chunks min_length max_length [] rest)"
      by (auto split: if_splits)
    then show ?thesis
      using Cons.prems(1) chunk Cons.IH [OF emp rest] by blast
  qed
qed

subsection \<open>Lengths\<close>

lemma len_nonneg [simp]: "0 \<le> len s"
  by (simp add: len_def)

lemma len_strip_le: "len (py_strip s) \<le> len s"
proof -
  have "length (dropWhile is_space (rev (dropWhile is_space s))) \<le> length (rev (dropWhile is_space s))"
    by (rule length_dropWhile_le)
  also have "\<dots> \<le> length s" by (simp add: length_dropWhile_le)
  finally show ?thesis by (simp add: py_strip_def len_def)
qed

lemma len_joined: "len (py_strip (buf @ '' '' @ s)) \<le> len buf + len s + 1"
  using len_strip_le [of "buf @ '' '' @ s"] by (simp add: len_def)

lemma pack_bound:
  "c \<in> set (pack_sentences max_length buf sents) \<Longrightarrow>
   len c \<le> max_length \<or> (c = buf \<and> buf \<noteq> []) \<or> c \<in> set sents"
proof (induction sents arbitrary: buf)
  case Nil
  then show ?case by (simp split: if_splits)
next
  case (Cons sent rest)
  show ?case
  proof (cases "sent = []")
    case True
    with Cons.prems have "c \<in> set (pack_sentences max_length buf rest)" by simp
    from Cons.IH [OF this] show ?thesis by auto
  next
    case ne: False
    show ?thesis
    proof (cases "len buf + len sent + 1 \<le> max_length")
      case True
      with ne Cons.prems
      have "c \<in> set (pack_sentences max_length (py_strip (buf @ '' '' @ sent)) rest)" by simp
      from Cons.IH [OF this] True len_joined [of buf sent] show ?thesis by auto
    next
      case False
      with ne Cons.prems
      have "(c = buf \<and> buf \<noteq> []) \<or> c \<in> set (pack_sentences max_length sent rest)"
        by (auto split: if_splits)
      with Cons.IH [of sent] show ?thesis by auto
    qed
  qed
qed

lemma merge_bound:
  "c \<in> set (merge_chunks min_length max_length buf chunks) \<Longrightarrow>
   len c \<le> max_length \<or> (c = buf \<and> buf \<noteq> []) \<or> c \<in> set chunks"
proof (induction chunks arbitrary: buf)
  case Nil
  then show ?case by (simp split: if_splits)
next
  case (Cons chunk rest)
  show ?case
  proof (cases "len buf + len chunk + 1 \<le> max_length \<and> (len buf < min_length \<or> len chunk < min_length)")
    case True
    with Cons.prems
    have "c \<in> set (merge_chunks min_length max_length (py_strip (buf @ '' '' @ chunk)) rest)"
      by auto
    from Cons.IH [OF this] True len_joined [of buf chunk] show ?thesis by auto
  next
    case False
    with Cons.prems
    have "(c = buf \<and> buf \<noteq> []) \<or> c = chunk
            \<or> c \<in> set (merge_chunks min_length max_length [] rest)"
      by (auto split: if_splits)
    with Cons.IH [of "[]"] show ?thesis by auto
  qed
qed


lemma pack_keeps_long_buffer:
  "buf \<noteq> [] \<Longrightarrow> max_length < len buf \<Longrightarrow> buf \<in> set (pack_sentences max_length buf sents)"
proof (induction sents)
  case Nil
  then show ?case by simp
next
  case (Cons sent rest)
  have "\<not> len buf + len sent + 1 \<le> max_length"
    using Cons.prems(2) len_nonneg [of sent] by linarith
  with Cons show ?case by simp
qed

lemma pack_keeps_long:
  "s \<in> set sents \<Longrightarrow> s \<noteq> [] \<Longrightarrow> max_length < len s \<Longrightarrow>
   s \<in> set (pack_sentences max_length buf sents)"
proof (induction sents arbitrary: buf)
  case Nil
  then show ?case by simp
next
  case (Cons sent rest)
  show ?case
  proof (cases "s = sent")
    case True
    have "\<not> len buf + len sent + 1 \<le> max_length"
      using Cons.prems(3) len_nonneg [of buf] unfolding True by linarith
    moreover have "sent \<in> set (pack_sentences max_length sent rest)"
      using Cons.prems(2,3) True pack_keeps_long_buffer by blast
    ultimately show ?thesis using True Cons.prems(2) by simp
  next
    case False
    with Cons.prems have "s \<in> set rest" by simp
    from Cons.IH [OF this Cons.prems(2,3)] show ?thesis by simp
  qed
qed

lemma merge_keeps_long:
  "s \<in> set chunks \<Longrightarrow> max_length < len s \<Longrightarrow>
   s \<in> set (merge_chunks min_length max_length buf chunks)"
proof (induction chunks arbitrary: buf)
  case Nil
  then show ?case by simp
next
  case (Cons chunk rest)
  show ?case
  proof (cases "s = chunk")
    case True
    have "\<not> len buf + len chunk + 1 \<le> max_length"
      using Cons.prems(2) len_nonneg [of buf] unfolding True by linarith
    then show ?thesis using True by simp
  next
    case False
    with Cons.prems have "s \<in> set rest" by simp
    from Cons.IH [OF this Cons.prems(2)] show ?thesis by simp
  qed
qed

lemma first_pass_bound:
  assumes "c \<in> set (first_pass text max_length)"
  shows "len c \<le> max_length
         \<or> (\<exists>p \<in> set (paragraphs text). max_length < len p \<and> c \<in> set (re_split_sentences [] p))"
proof -
  from assms obtain p where p: "p \<in> set (paragraphs text)"
    and c: "c \<in> set (chunks_of_paragraph max_length p)"
    by (auto simp: first_pass_def)
  show ?thesis
  proof (cases "len p \<le> max_length")
    case True
    with c show ?thesis by (simp add: chunks_of_paragraph_def)
  next
    case False
    with c have "c \<in> set (pack_sentences max_length [] (re_split_sentences [] p))"
      by (simp add: chunks_of_paragraph_def)
    from pack_bound [OF this] have "len c \<le> max_length \<or> c \<in> set (re_split_sentences [] p)"
      by simp
    with p False show ?thesis by auto
  qed
qed

lemma first_pass_keeps_long:
  assumes "p \<in> set (paragraphs text)" "max_length < len p"
    "s \<in> set (re_split_sentences [] p)" "max_length < len s"
  shows "s \<in> set (first_pass text max_length)"
proof -
  from paragraphs_stripped [OF assms(1)] have ne: "p \<noteq> []" and st: "py_strip p = p" by simp_all
  then have "\<not> is_space (hd p) \<and> \<not> is_space (last p)" by (simp add: strip_fixed_iff)
  then have "s \<noteq> []"
    using split_sentences_stripped [of "[]" p s] ne assms(3) by simp
  then have "s \<in> set (pack_sentences max_length [] (re_split_sentences [] p))"
    using assms(3,4) pack_keeps_long by blast
  then have "s \<in> set (chunks_of_paragraph max_length p)"
    using assms(2) by (simp add: chunks_of_paragraph_def)
  with assms(1) show ?thesis by (auto simp: first_pass_def)
qed

subsection \<open>The merge pass and small neighbours\<close>

lemma merge_chunks_count:
  "length (merge_chunks min_length max_length buf chunks)
     \<le> length chunks + (if buf \<noteq> [] then 1 else 0)"
proof (induction chunks arbitrary: buf)
  case Nil
  show ?case by simp
next
  case (Cons chunk rest)
  have a: "length (merge_chunks min_length max_length (py_strip (buf @ '' '' @ chunk)) rest)
             \<le> length rest + 1"
    using Cons.IH [of "py_strip (buf @ '' '' @ chunk)"] by (simp split: if_splits)
  have b: "length (merge_chunks min_length max_length [] rest) \<le> length rest"
    using Cons.IH [of "[]"] by simp
  show ?case using a b by simp
qed

text \<open>
  C1. The merge pass must not leave two adjacent chunks that are both shorter than
  \<open>min_length\<close> when joining them with one space stays within \<open>max_length\<close>, and a
  chunk that cannot be merged must start the new buffer. On the three paragraphs
  \<open>aaa\<close>, \<open>bbbbbbb\<close>, \<open>cc\<close> with \<open>min_length = 8\<close> and \<open>max_length = 10\<close> the
  source emits \<open>bbbbbbb\<close> directly and restarts with an empty buffer, so \<open>bbbbbbb\<close>
  and \<open>cc\<close> stay apart although both are shorter than 8 and \<open>bbbbbbb cc\<close> has
  length 10.
\<close>

theorem merge_pass_leaves_small_neighbours:
  "split_into_chunks
     (''aaa'' @ [newline, newline] @ ''bbbbbbb'' @ [newline, newline] @ ''cc'') 8 10
     = [''aaa'', ''bbbbbbb'', ''cc'']
   \<and> len ''bbbbbbb'' < 8 \<and> len ''cc'' < 8
   \<and> len (''bbbbbbb'' @ '' '' @ ''cc'') \<le> 10"
  by code_simp

subsection \<open>Content preservation\<close>

text \<open>
  C8. Chunking neither inserts, loses nor reorders content: for every text and all bounds,
  the chunks returned by \<open>split_into_chunks\<close>, concatenated in order, have exactly the
  non-whitespace characters of the input text, in the input's order. (Whitespace itself is
  normalised: separators are dropped and joined pieces get one blank.)
\<close>

theorem chunking_preserves_content:
  "non_space (concat (split_into_chunks text min_length max_length)) = non_space text"
  by (simp add: split_into_chunks_def non_space_merge non_space_first_pass)

subsection \<open>Chunks are trimmed and non-empty\<close>

text \<open>
  C10. Every string returned by \<open>split_into_chunks\<close> is non-empty and equals its own
  whitespace-trimmed form, for every text and every choice of \<open>min_length\<close> and
  \<open>max_length\<close>.
\<close>

theorem chunks_trimmed_nonempty:
  "\<forall>c \<in> set (split_into_chunks text min_length max_length). c \<noteq> [] \<and> py_strip c = c"
proof
  fix c assume "c \<in> set (split_into_chunks text min_length max_length)"
  then have "c \<in> set (merge_chunks min_length max_length [] (first_pass text max_length))"
    by (simp add: split_into_chunks_def)
  moreover have "py_strip [] = []" by (simp add: py_strip_def)
  ultimately show "c \<noteq> [] \<and> py_strip c = c"
    by (rule merge_stripped [rotated 2, OF _ _ first_pass_stripped])
qed

theorem chunks_trimmed_nonempty_witness:
  "''Hello world.'' \<in> set (split_into_chunks ''  Hello world.  '' 50 300)
   \<and> ''Hello world.'' \<noteq> [] \<and> py_strip ''Hello world.'' = ''Hello world.''"
proof -
  have m: "''Hello world.'' \<in> set (split_into_chunks ''  Hello world.  '' 50 300)"
    by code_simp
  with chunks_trimmed_nonempty [of "''  Hello world.  ''" 50 300] show ?thesis
    by blast
qed

subsection \<open>The length bound and oversized sentences\<close>

text \<open>
  C2, as stated: when some paragraph longer than \<open>max_length\<close> has a sentence of length
  at most \<open>max_length\<close>, every emitted chunk except possibly one oversized
  single-sentence chunk has length at most \<open>max_length\<close>. The paragraph below has two
  sentences longer than \<open>max_length = 5\<close> and one shorter; both long sentences are
  emitted, so two chunks exceed the bound.
\<close>

theorem two_oversized_chunks:
  "paragraphs ''abcdefgh. ijklmnop. ab.'' = [''abcdefgh. ijklmnop. ab.'']
   \<and> 5 < len ''abcdefgh. ijklmnop. ab.''
   \<and> re_split_sentences [] ''abcdefgh. ijklmnop. ab.'' = [''abcdefgh.'', ''ijklmnop.'', ''ab.'']
   \<and> len ''ab.'' \<le> 5
   \<and> split_into_chunks ''abcdefgh. ijklmnop. ab.'' 2 5 = [''abcdefgh.'', ''ijklmnop.'', ''ab.'']
   \<and> 5 < len ''abcdefgh.'' \<and> 5 < len ''ijklmnop.'' \<and> ''abcdefgh.'' \<noteq> ''ijklmnop.''"
  by code_simp

text \<open>
  C2, amended: for every text and all bounds, every chunk returned by
  \<open>split_into_chunks\<close> either has length at most \<open>max_length\<close> or is one whole
  sentence, longer than \<open>max_length\<close>, of a paragraph longer than \<open>max_length\<close>
  (there may be several such chunks, one for each oversized sentence); and every sentence
  longer than \<open>max_length\<close> of such a paragraph is among the chunks, whole.
\<close>

theorem chunk_within_bound_or_whole_sentence:
  "(\<forall>c \<in> set (split_into_chunks text min_length max_length).
      len c \<le> max_length
      \<or> (\<exists>p \<in> set (paragraphs text).
            max_length < len p \<and> c \<in> set (re_split_sentences [] p) \<and> max_length < len c))
   \<and> (\<forall>p \<in> set (paragraphs text). max_length < len p \<longrightarrow>
        (\<forall>s \<in> set (re_split_sentences [] p). max_length < len s \<longrightarrow>
           s \<in> set (split_into_chunks text min_length max_length)))"
proof (intro conjI ballI impI)
  fix c assume "c \<in> set (split_into_chunks text min_length max_length)"
  then have "c \<in> set (merge_chunks min_length max_length [] (first_pass text max_length))"
    by (simp add: split_into_chunks_def)
  from merge_bound [OF this]
  have "len c \<le> max_length \<or> c \<in> set (first_pass text max_length)" by simp
  then show "len c \<le> max_length
      \<or> (\<exists>p \<in> set (paragraphs text).
            max_length < len p \<and> c \<in> set (re_split_sentences [] p) \<and> max_length < len c)"
    using first_pass_bound [of c "text" max_length] by (cases "len c \<le> max_length") auto
next
  fix p s
  assume "p \<in> set (paragraphs text)" "max_length < len p"
    "s \<in> set (re_split_sentences [] p)" "max_length < len s"
  then have "s \<in> set (first_pass text max_length)" by (rule first_pass_keeps_long)
  then show "s \<in> set (split_into_chunks text min_length max_length)"
    using \<open>max_length < len s\<close> by (simp add: split_into_chunks_def merge_keeps_long)
qed

theorem chunk_within_bound_or_whole_sentence_witness:
  "''abcdefgh.'' \<in> set (split_into_chunks ''abcdefgh. ijklmnop. ab.'' 2 5)
   \<and> \<not> len ''abcdefgh.'' \<le> 5
   \<and> (\<exists>p \<in> set (paragraphs ''abcdefgh. ijklmnop. ab.'').
         5 < len p \<and> ''abcdefgh.'' \<in> set (re_split_sentences [] p) \<and> 5 < len ''abcdefgh.'')
   \<and> ''abcdefgh. ijklmnop. ab.'' \<in> set (paragraphs ''abcdefgh. ijklmnop. ab.'')
   \<and> 5 < len ''abcdefgh. ijklmnop. ab.''
   \<and> ''ijklmnop.'' \<in> set (re_split_sentences [] ''abcdefgh. ijklmnop. ab.'')
   \<and> 5 < len ''ijklmnop.''
   \<and> ''ijklmnop.'' \<in> set (split_into_chunks ''abcdefgh. ijklmnop. ab.'' 2 5)"
proof -
  have a: "''abcdefgh.'' \<in> set (split_into_chunks ''abcdefgh. ijklmnop. ab.'' 2 5)"
    by code_simp
  have b: "\<not> len ''abcdefgh.'' \<le> 5"
    by code_simp
  have c: "''abcdefgh. ijklmnop. ab.'' \<in> set (paragraphs ''abcdefgh. ijklmnop. ab.'')"
    by code_simp
  have d: "5 < len ''abcdefgh. ijklmnop. ab.''"
    by code_simp
  have e: "''ijklmnop.'' \<in> set (re_split_sentences [] ''abcdefgh. ijklmnop. ab.'')"
    by code_simp
  have f: "5 < len ''ijklmnop.''"
    by code_simp
  from chunk_within_bound_or_whole_sentence [of "''abcdefgh. ijklmnop. ab.''" 2 5] a b c d e f
  show ?thesis by blast
qed

section \<open>Properties of the quiz engine\<close>

subsection \<open>The first maximal element\<close>

lemma first_longest_step:
  assumes "is_first_max f pre b"
  shows "is_first_max f (pre @ [y]) (if f b < f y then y else b)"
proof (cases "f b < f y")
  case True
  have all: "\<And>z. z \<in> set pre \<Longrightarrow> f z \<le> f b"
    using assms by (simp add: is_first_max_def list_all_iff)
  then have "y \<notin> set pre" using True by fastforce
  then have tw: "takeWhile (\<lambda>z. z \<noteq> y) (pre @ [y]) = pre"
    by (subst takeWhile_append2) auto
  have shorter: "\<And>z. z \<in> set pre \<Longrightarrow> f z < f y"
    using all True by fastforce
  have "is_first_max f (pre @ [y]) y"
    unfolding is_first_max_def tw using shorter by (auto simp: list_all_iff less_imp_le)
  then show ?thesis using True by simp
next
  case False
  have b: "b \<in> set pre" using assms by (simp add: is_first_max_def)
  then have tw: "takeWhile (\<lambda>z. z \<noteq> b) (pre @ [y]) = takeWhile (\<lambda>z. z \<noteq> b) pre"
    by (simp add: takeWhile_append1)
  have "is_first_max f (pre @ [y]) b"
    using False assms b unfolding is_first_max_def
    by (simp add: tw list_all_iff)
  then show ?thesis using False by simp
qed

lemma max_from_first_longest_gen:
  "is_first_max f pre b \<Longrightarrow> is_first_max f (pre @ rest) (max_from f b rest)"
proof (induction rest arbitrary: pre b)
  case Nil
  then show ?case by simp
next
  case (Cons y ys)
  from Cons.IH [OF first_longest_step [OF Cons.prems, of y]] show ?case by simp
qed

lemma max_from_first_longest: "is_first_max f (x # xs) (max_from f x xs)"
proof -
  have "is_first_max f [x] x" by (simp add: is_first_max_def)
  from max_from_first_longest_gen [OF this, of xs] show ?thesis by simp
qed

lemma first_of_two:
  assumes "u \<in> set xs" "v \<in> set xs" "u \<noteq> v"
  shows "v \<in> set (takeWhile (\<lambda>z. z \<noteq> u) xs) \<or> u \<in> set (takeWhile (\<lambda>z. z \<noteq> v) xs)"
  using assms
proof (induction xs)
  case Nil
  then show ?case by simp
next
  case (Cons z zs)
  show ?case
  proof (cases "z = u \<or> z = v")
    case True
    then show ?thesis using Cons.prems(3) by auto
  next
    case False
    then have "u \<in> set zs" "v \<in> set zs" using Cons.prems by auto
    from Cons.IH [OF this Cons.prems(3)] False show ?thesis by auto
  qed
qed

lemma first_longest_unique:
  assumes "is_first_max f xs x" "is_first_max f xs y"
  shows "x = y"
proof (rule ccontr)
  assume ne: "x \<noteq> y"
  have lx: "f y \<le> f x" and ly: "f x \<le> f y"
    using assms by (simp_all add: is_first_max_def list_all_iff)
  have x: "x \<in> set xs" and y: "y \<in> set xs" using assms by (simp_all add: is_first_max_def)
  have bx: "\<And>z. z \<in> set (takeWhile (\<lambda>z. z \<noteq> x) xs) \<Longrightarrow> f z < f x"
    and by': "\<And>z. z \<in> set (takeWhile (\<lambda>z. z \<noteq> y) xs) \<Longrightarrow> f z < f y"
    using assms by (simp_all add: is_first_max_def list_all_iff)
  have "y \<in> set (takeWhile (\<lambda>z. z \<noteq> x) xs) \<or> x \<in> set (takeWhile (\<lambda>z. z \<noteq> y) xs)"
    using x y ne by (rule first_of_two)
  then show False using bx [of y] by' [of x] lx ly by auto
qed

lemma first_longest_Nil [simp]: "\<not> is_first_max f [] x"
  by (simp add: is_first_max_def)

lemma sentences_of_trimmed: "s \<in> set (sentences_of c) \<Longrightarrow> py_strip s = s"
  by (auto simp: sentences_of_def)

subsection \<open>Sessions keep their three buckets and a level among them\<close>

lemma keys_dict_modify [simp]: "map fst (dict_modify k f d) = map fst d"
  by (induction d) (auto simp: dict_modify_def)

lemma difficulty_range: "difficulty_from_length n \<in> {0, 1, 2}"
  by (simp add: difficulty_from_length_def)

lemma dict_get_key: "k \<in> set (map fst d) \<Longrightarrow> \<exists>v. dict_get d k = Inr v"
proof -
  assume "k \<in> set (map fst d)"
  then have "map_of d k \<noteq> None" by (simp add: map_of_eq_None_iff)
  then show ?thesis by (auto simp: dict_get_def)
qed

lemma add_questions_keys:
  "map fst qbl = [0, 1, 2] \<Longrightarrow>
   \<exists>qbl'. add_questions tp chunks qbl = Inr qbl' \<and> map fst qbl' = [0, 1, 2]"
proof (induction chunks arbitrary: qbl)
  case Nil
  then show ?case by simp
next
  case (Cons chunk rest)
  show ?case
  proof (cases "topic_skips tp chunk")
    case True
    with Cons show ?thesis by simp
  next
    case False
    show ?thesis
    proof (cases "generate_question_from_chunk chunk")
      case None
      with False Cons show ?thesis by simp
    next
      case (Some r)
      obtain q a d where r: "r = (q, a, d)" by (cases r) auto
      have "difficulty_from_length d \<in> set (map fst qbl)"
        using difficulty_range [of d] Cons.prems by auto
      then obtain v where v: "dict_get qbl (difficulty_from_length d) = Inr v"
        using dict_get_key by blast
      have k: "map fst (dict_modify (difficulty_from_length d)
           (\<lambda>qs. qs @ [\<lparr>text' = q, answer = a, difficulty = difficulty_from_length d\<rparr>]) qbl) = [0, 1, 2]"
        using Cons.prems by simp
      from Cons.IH [OF k] show ?thesis
        using False Some r v by (simp add: Let_def)
    qed
  qed
qed

lemma init_session_ok:
  "\<exists>s. init_session shuffle notes tp min_len max_len = Inr s \<and> well_formed s
       \<and> current_level s = 1 \<and> correct_count s = 0 \<and> incorrect_count s = 0"
proof -
  obtain qbl' where a: "add_questions tp (split_into_chunks notes min_len max_len)
      [(0, []), (1, []), (2, [])] = Inr qbl'" and k: "map fst qbl' = [0, 1, 2]"
    using add_questions_keys [where qbl = "[(0, []), (1, []), (2, [])]" and tp = tp
        and chunks = "split_into_chunks notes min_len max_len"] by auto
  have "map fst (map (\<lambda>(level, qs). (level, shuffle level qs)) qbl') = map fst qbl'"
    by (induction qbl') auto
  then show ?thesis
    using a k by (simp add: init_session_def prepare_questions_def well_formed_def)
qed

lemma max_from_mem: "max_from f b xs \<in> set (b # xs)"
  by (induction xs arbitrary: b) auto

lemma remaining_levels_keys: "set (remaining_levels qbl) \<subseteq> set (map fst qbl)"
  by (auto simp: remaining_levels_def)

lemma choose_level_ok:
  assumes "well_formed s" "choose_level s = Inr (Some s')"
  shows "well_formed s' \<and> (\<exists>l. s' = s\<lparr>current_level := l\<rparr>)"
proof -
  obtain qs where qs: "dict_get (questions_by_level s) (current_level s) = Inr qs"
    using assms(2) by (auto simp: choose_level_def split: sum.splits)
  show ?thesis
  proof (cases "qs = []")
    case False
    with assms qs have "s' = s" by (simp add: choose_level_def)
    with assms(1) show ?thesis by (auto intro: exI [of _ "current_level s"])
  next
    case True
    with assms(2) qs obtain l ls where r: "remaining_levels (questions_by_level s) = l # ls"
      and s': "s' = s\<lparr>current_level := max_from (bucket_size (questions_by_level s)) l ls\<rparr>"
      by (auto simp: choose_level_def split: list.splits)
    have "max_from (bucket_size (questions_by_level s)) l ls \<in> set (l # ls)"
      by (rule max_from_mem)
    then have "max_from (bucket_size (questions_by_level s)) l ls \<in> set (map fst (questions_by_level s))"
      using remaining_levels_keys [of "questions_by_level s"] r by auto
    moreover have "map fst (questions_by_level s) = [0, 1, 2]"
      using assms(1) by (simp add: well_formed_def)
    ultimately have "max_from (bucket_size (questions_by_level s)) l ls \<in> set [0, 1, 2]"
      by (simp only:)
    then have "max_from (bucket_size (questions_by_level s)) l ls \<in> {0, 1, 2}"
      by simp
    then have "well_formed s'" using assms(1) s' by (auto simp: well_formed_def)
    then show ?thesis using s' by blast
  qed
qed

lemma record_answer_ok: "well_formed s \<Longrightarrow> well_formed (record_answer c s)"
  by (simp add: well_formed_def record_answer_def)

lemma sess_say [simp]: "sess (say quiet msgs w) = sess w"
  by (simp add: say_def)

lemma stdin_say [simp]: "stdin (say quiet msgs w) = stdin w"
  by (simp add: say_def)

lemma serve_ok:
  assumes "well_formed (sess w)" "serve i n quiet w = (st, w')"
  shows "well_formed (sess w')"
proof (cases "dict_get (questions_by_level (sess w)) (current_level (sess w))")
  case (Inl e)
  with assms show ?thesis by (simp add: serve_def Let_def)
next
  case (Inr qs)
  have wf1: "well_formed ((sess w)\<lparr>questions_by_level :=
      dict_modify (current_level (sess w)) butlast (questions_by_level (sess w))\<rparr>)"
    using assms(1) by (simp add: well_formed_def)
  show ?thesis
  proof (cases "qs = []")
    case True
    with Inr assms show ?thesis by (simp add: serve_def Let_def)
  next
    case False
    show ?thesis
    proof (cases "stdin w")
      case Nil
      with Inr False assms(2) wf1 show ?thesis
        by (auto simp: serve_def Let_def)
    next
      case (Cons u us)
      with Inr False assms(2) record_answer_ok [OF wf1] show ?thesis
        by (auto simp: serve_def Let_def split: if_splits)
    qed
  qed
qed

lemma ask_iteration_ok:
  assumes "well_formed (sess w)" "ask_iteration i n quiet w = (st, w')"
  shows "well_formed (sess w')"
proof (cases "choose_level (sess w)")
  case (Inl e)
  with assms show ?thesis by (simp add: ask_iteration_def)
next
  case (Inr r)
  show ?thesis
  proof (cases r)
    case None
    with Inr assms show ?thesis by (auto simp: ask_iteration_def)
  next
    case (Some s)
    with Inr assms(1) have "well_formed s" using choose_level_ok by blast
    then have "well_formed (sess (w\<lparr>sess := s\<rparr>))" by simp
    moreover have "serve i n quiet (w\<lparr>sess := s\<rparr>) = (st, w')"
      using Inr Some assms(2) by (simp add: ask_iteration_def)
    ultimately show ?thesis by (rule serve_ok)
  qed
qed

lemma ask_loop_ok:
  "well_formed (sess w) \<Longrightarrow> ask_loop n quiet idxs w = (st, w') \<Longrightarrow> well_formed (sess w')"
proof (induction idxs arbitrary: w)
  case Nil
  then show ?case by simp
next
  case (Cons i rest)
  obtain st1 w1 where it: "ask_iteration (int i) n quiet w = (st1, w1)" by (metis surj_pair)
  have wf1: "well_formed (sess w1)" using Cons.prems(1) it by (rule ask_iteration_ok)
  show ?case
  proof (cases "st1 = Running")
    case True
    with it Cons.prems(2) have "ask_loop n quiet rest w1 = (st, w')" by simp
    with wf1 show ?thesis by (rule Cons.IH)
  next
    case False
    with it Cons.prems(2) have "w' = w1" by (cases st1) auto
    with wf1 show ?thesis by simp
  qed
qed

lemma print_summary_total:
  "print_summary n w =
     (None, w\<lparr>stdout := stdout w
        @ [QuizComplete, Attempted (correct_count (sess w) + incorrect_count (sess w)),
           CorrectAnswers (correct_count (sess w)), IncorrectAnswers (incorrect_count (sess w))]
        @ (if correct_count (sess w) + incorrect_count (sess w) = 0 then []
           else [Accuracy (of_int (100 * correct_count (sess w))
                           / of_int (correct_count (sess w) + incorrect_count (sess w)))])\<rparr>)"
  by (simp add: print_summary_def py_truediv_def Let_def)

lemma serve_quiet:
  assumes "sess w1 = sess w2" "stdin w1 = stdin w2"
  shows "fst (serve i n q1 w1) = fst (serve i n q2 w2)
         \<and> sess (snd (serve i n q1 w1)) = sess (snd (serve i n q2 w2))
         \<and> stdin (snd (serve i n q1 w1)) = stdin (snd (serve i n q2 w2))"
proof (cases "dict_get (questions_by_level (sess w2)) (current_level (sess w2))")
  case (Inl e)
  with assms show ?thesis by (simp add: serve_def Let_def)
next
  case (Inr qs)
  show ?thesis
  proof (cases "qs = []")
    case True
    with Inr assms show ?thesis by (simp add: serve_def Let_def)
  next
    case False
    show ?thesis
    proof (cases "stdin w2")
      case Nil
      with Inr False assms show ?thesis by (simp add: serve_def Let_def)
    next
      case (Cons u us)
      with Inr False assms show ?thesis by (simp add: serve_def Let_def)
    qed
  qed
qed

lemma ask_iteration_quiet:
  assumes "sess w1 = sess w2" "stdin w1 = stdin w2"
  shows "fst (ask_iteration i n q1 w1) = fst (ask_iteration i n q2 w2)
         \<and> sess (snd (ask_iteration i n q1 w1)) = sess (snd (ask_iteration i n q2 w2))
         \<and> stdin (snd (ask_iteration i n q1 w1)) = stdin (snd (ask_iteration i n q2 w2))"
proof (cases "choose_level (sess w2)")
  case (Inl e)
  with assms show ?thesis by (simp add: ask_iteration_def)
next
  case (Inr r)
  show ?thesis
  proof (cases r)
    case None
    with Inr assms show ?thesis by (simp add: ask_iteration_def)
  next
    case (Some s)
    have "sess (w1\<lparr>sess := s\<rparr>) = sess (w2\<lparr>sess := s\<rparr>)"
      and "stdin (w1\<lparr>sess := s\<rparr>) = stdin (w2\<lparr>sess := s\<rparr>)"
      using assms by simp_all
    from serve_quiet [OF this, of i n q1 q2] Inr Some assms show ?thesis
      by (simp add: ask_iteration_def)
  qed
qed

lemma ask_loop_quiet:
  "sess w1 = sess w2 \<Longrightarrow> stdin w1 = stdin w2 \<Longrightarrow>
   fst (ask_loop n q1 idxs w1) = fst (ask_loop n q2 idxs w2)
   \<and> sess (snd (ask_loop n q1 idxs w1)) = sess (snd (ask_loop n q2 idxs w2))
   \<and> stdin (snd (ask_loop n q1 idxs w1)) = stdin (snd (ask_loop n q2 idxs w2))"
proof (induction idxs arbitrary: w1 w2)
  case Nil
  then show ?case by simp
next
  case (Cons i rest)
  obtain st1 v1 where a: "ask_iteration (int i) n q1 w1 = (st1, v1)" by (metis surj_pair)
  obtain st2 v2 where b: "ask_iteration (int i) n q2 w2 = (st2, v2)" by (metis surj_pair)
  from ask_iteration_quiet [OF Cons.prems, of "int i" n q1 q2] a b
  have e: "st1 = st2" "sess v1 = sess v2" "stdin v1 = stdin v2" by simp_all
  show ?case
  proof (cases "st1 = Running")
    case True
    with a b e Cons.IH [OF e(2,3)] show ?thesis by simp
  next
    case False
    show ?thesis
    proof (cases st2)
      case Running
      with False e show ?thesis by simp
    next
      case Broke
      with a b e show ?thesis by simp
    next
      case (Raised x)
      with a b e show ?thesis by simp
    qed
  qed
qed

lemma print_summary_silent:
  "fst (print_summary n w) = None \<and> sess (snd (print_summary n w)) = sess w
   \<and> stdin (snd (print_summary n w)) = stdin w"
  by (simp add: print_summary_total)

lemma ask_loop_no_division_error:
  "ask_loop n quiet idxs w = (Raised e, w') \<Longrightarrow> e \<noteq> ZeroDivisionError"
proof (induction idxs arbitrary: w)
  case Nil
  then show ?case by simp
next
  case (Cons i rest)
  obtain st1 w1 where it: "ask_iteration (int i) n quiet w = (st1, w1)" by (metis surj_pair)
  show ?case
  proof (cases st1)
    case Running
    with it Cons show ?thesis by simp
  next
    case Broke
    with it Cons.prems show ?thesis by simp
  next
    case (Raised e1)
    with it Cons.prems have e: "e1 = e" by simp
    have "e1 \<noteq> ZeroDivisionError"
      using it Raised
      by (auto simp: ask_iteration_def serve_def choose_level_def dict_get_def Let_def
          split: sum.splits option.splits list.splits if_splits)
    with e show ?thesis by simp
  qed
qed




lemma serve_grades:
  assumes "dict_get (questions_by_level (sess w)) (current_level (sess w)) = Inr qs"
    "qs \<noteq> []" "stdin w = u # us"
  shows "sess (snd (serve i n quiet w)) =
     record_answer (check_answer u (answer (last qs)))
       ((sess w)\<lparr>questions_by_level :=
           dict_modify (current_level (sess w)) butlast (questions_by_level (sess w))\<rparr>)"
  using assms by (simp add: serve_def Let_def)

lemma record_answer_level:
  "current_level (record_answer c s) =
     (if c then (if current_level s < 2 then current_level s + 1 else current_level s)
      else (if 0 < current_level s then current_level s - 1 else current_level s))"
  by (simp add: record_answer_def)

subsection \<open>Answers to served questions\<close>

text \<open>
  When the bucket of the current level has a question and an answer can be read, the
  iteration serves the last question of that bucket and adjusts the level from there. So
  two correct answers from level 1 end at level 2 when the buckets of levels 1 and 2 both
  have a question to serve, and an incorrect answer to a question served at level 0 leaves
  the level at 0. (When the bucket of the new level is empty, the next iteration reselects
  the level before it serves.)
\<close>

lemma ask_iteration_served:
  assumes "dict_get (questions_by_level (sess w)) (current_level (sess w)) = Inr qs"
    "qs \<noteq> []" "stdin w = u # us"
  shows "fst (ask_iteration i n quiet w) = Running
    \<and> sess (snd (ask_iteration i n quiet w)) =
        record_answer (check_answer u (answer (last qs)))
          ((sess w)\<lparr>questions_by_level :=
             dict_modify (current_level (sess w)) butlast (questions_by_level (sess w))\<rparr>)
    \<and> stdin (snd (ask_iteration i n quiet w)) = us"
proof -
  have c: "choose_level (sess w) = Inr (Some (sess w))"
    using assms(1,2) by (simp add: choose_level_def)
  show ?thesis
    using assms c by (simp add: ask_iteration_def serve_def Let_def)
qed

lemma dict_get_modify_other:
  "k \<noteq> k' \<Longrightarrow> dict_get (dict_modify k f d) k' = dict_get d k'"
  by (induction d) (auto simp: dict_get_def dict_modify_def)

lemma two_correct_answers:
  assumes "current_level (sess w) = 1"
    "dict_get (questions_by_level (sess w)) 1 = Inr b" "b \<noteq> []"
    "dict_get (questions_by_level (sess w)) 2 = Inr c" "c \<noteq> []"
    "stdin w = u1 # u2 # us"
    "check_answer u1 (answer (last b))" "check_answer u2 (answer (last c))"
  shows "fst (ask_loop n quiet [i, j] w) = Running
    \<and> current_level (sess (snd (ask_iteration (int i) n quiet w))) = 2
    \<and> current_level (sess (snd (ask_loop n quiet [i, j] w))) = 2"
proof -
  obtain st1 w1 where it: "ask_iteration (int i) n quiet w = (st1, w1)" by (metis surj_pair)
  have s1: "st1 = Running
    \<and> sess w1 = record_answer True
          ((sess w)\<lparr>questions_by_level := dict_modify 1 butlast (questions_by_level (sess w))\<rparr>)
    \<and> stdin w1 = u2 # us"
    using ask_iteration_served [of w b u1 "u2 # us" "int i" n quiet] assms it by simp
  then have l1: "current_level (sess w1) = 2"
    using assms(1) by (simp add: record_answer_def)
  have q1: "dict_get (questions_by_level (sess w1)) (current_level (sess w1)) = Inr c"
    using s1 l1 assms(1,4) by (simp add: record_answer_def dict_get_modify_other)
  obtain st2 w2 where it2: "ask_iteration (int j) n quiet w1 = (st2, w2)" by (metis surj_pair)
  have s2: "st2 = Running
    \<and> sess w2 = record_answer True
          ((sess w1)\<lparr>questions_by_level := dict_modify 2 butlast (questions_by_level (sess w1))\<rparr>)"
    using ask_iteration_served [of w1 c u2 us "int j" n quiet] q1 assms(5,8) s1 l1 it2 by simp
  then have l2: "current_level (sess w2) = 2"
    using l1 by (simp add: record_answer_def)
  show ?thesis using it it2 s1 s2 l1 l2 by simp
qed

lemma incorrect_answer_at_zero:
  assumes "current_level (sess w) = 0"
    "dict_get (questions_by_level (sess w)) 0 = Inr a" "a \<noteq> []"
    "stdin w = u # us" "\<not> check_answer u (answer (last a))"
  shows "current_level (sess (snd (ask_iteration i n quiet w))) = 0"
  using ask_iteration_served [of w a u us i n quiet] assms by (simp add: record_answer_def)

subsection \<open>Matched characters\<close>

text \<open>
  The longest match also lies inside the searched range of the second sequence, so the
  matched characters are at most as many as either sequence has and the ratio lies between
  0 and 1. For a second sequence of fewer than 200 characters (no element is dropped from
  the index), nothing is matched exactly when the two sequences have no character in
  common.
\<close>

lemma inner_loop_bounds_b:
  assumes "\<forall>j. j2len j \<le> j + 1 - blo" "\<forall>j \<in> set js. blo \<le> j \<and> j < bhi"
    "blo \<le> bestj" "(bestsize = 0 \<and> bestj = blo) \<or> bestj + bestsize \<le> bhi"
    "inner_loop i j2len js (newj2len, (besti, bestj, bestsize)) = (new, (bi, bj, bs))"
    "\<forall>j. newj2len j \<le> j + 1 - blo"
  shows "(\<forall>j. new j \<le> j + 1 - blo) \<and> blo \<le> bj \<and> ((bs = 0 \<and> bj = blo) \<or> bj + bs \<le> bhi)"
  using assms
proof (induction js arbitrary: newj2len besti bestj bestsize)
  case Nil
  then show ?case by simp
next
  case (Cons j js)
  define k where "k = (if j = 0 then 0 else j2len (j - 1)) + 1"
  have jr: "blo \<le> j" "j < bhi" using Cons.prems(2) by simp_all
  have "(if j = 0 then 0 else j2len (j - 1)) \<le> j - blo"
  proof (cases "j = 0")
    case True
    then show ?thesis by simp
  next
    case False
    have "j2len (j - 1) \<le> (j - 1) + 1 - blo" using Cons.prems(1) by blast
    with False show ?thesis by simp
  qed
  then have k: "k \<le> j + 1 - blo" "0 < k" using jr by (simp_all add: k_def)
  have rest: "\<forall>j \<in> set js. blo \<le> j \<and> j < bhi" using Cons.prems(2) by simp
  have c: "\<forall>j'. (newj2len(j := k)) j' \<le> j' + 1 - blo" using Cons.prems(6) k by simp
  show ?case
  proof (cases "bestsize < k")
    case True
    have step: "inner_loop i j2len js (newj2len(j := k), (i + 1 - k, j + 1 - k, k)) = (new, (bi, bj, bs))"
      using Cons.prems(5) True by (simp add: k_def Let_def)
    have a: "blo \<le> j + 1 - k" using k jr by linarith
    have b: "(k = 0 \<and> j + 1 - k = blo) \<or> j + 1 - k + k \<le> bhi" using k jr by linarith
    show ?thesis
      by (rule Cons.IH [OF Cons.prems(1) rest a b step c])
  next
    case False
    have step: "inner_loop i j2len js (newj2len(j := k), (besti, bestj, bestsize)) = (new, (bi, bj, bs))"
      using Cons.prems(5) False by (simp add: k_def Let_def)
    show ?thesis
      by (rule Cons.IH [OF Cons.prems(1) rest Cons.prems(3,4) step c])
  qed
qed

lemma outer_loop_bounds_b:
  "\<forall>j. j2len j \<le> j + 1 - blo \<Longrightarrow> blo \<le> fst (snd best) \<Longrightarrow>
   (snd (snd best) = 0 \<and> fst (snd best) = blo) \<or> fst (snd best) + snd (snd best) \<le> bhi \<Longrightarrow>
   outer_loop a b i ahi blo bhi j2len best = (bi, bj, bs) \<Longrightarrow>
   blo \<le> bj \<and> ((bs = 0 \<and> bj = blo) \<or> bj + bs \<le> bhi)"
proof (induction a b i ahi blo bhi j2len best rule: outer_loop.induct)
  case (1 a b i ahi blo bhi j2len best)
  show ?case
  proof (cases "i < ahi")
    case False
    then have "outer_loop a b i ahi blo bhi j2len best = best"
      by (subst outer_loop.simps) simp
    with 1(5) have "best = (bi, bj, bs)" by simp
    with 1(3,4) show ?thesis by simp
  next
    case True
    obtain besti bestj bestsize where best: "best = (besti, bestj, bestsize)"
      by (cases best) auto
    define js where "js = filter (\<lambda>j. blo \<le> j) (takeWhile (\<lambda>j. j < bhi) (b2j b (a ! i)))"
    have jr: "\<forall>j \<in> set js. blo \<le> j \<and> j < bhi"
      by (auto simp: js_def dest: set_takeWhileD)
    obtain new ni nj ns where
      inner: "inner_loop i j2len js (\<lambda>_. 0, (besti, bestj, bestsize)) = (new, (ni, nj, ns))"
      by (metis surj_pair)
    have p3: "blo \<le> bestj" using 1(3) best by simp
    have p4: "(bestsize = 0 \<and> bestj = blo) \<or> bestj + bestsize \<le> bhi" using 1(4) best by simp
    have p6: "\<forall>j. (\<lambda>_. 0::nat) j \<le> j + 1 - blo" by simp
    have ib: "(\<forall>j. new j \<le> j + 1 - blo) \<and> blo \<le> nj \<and> ((ns = 0 \<and> nj = blo) \<or> nj + ns \<le> bhi)"
      by (rule inner_loop_bounds_b [OF 1(2) jr p3 p4 inner p6])
    have "outer_loop a b i ahi blo bhi j2len best = outer_loop a b (Suc i) ahi blo bhi new (ni, nj, ns)"
      using True inner best by (subst outer_loop.simps) (simp add: js_def)
    then have rec: "outer_loop a b (Suc i) ahi blo bhi new (ni, nj, ns) = (bi, bj, bs)"
      using 1(5) by simp
    have inner': "(new, (ni, nj, ns)) = inner_loop i j2len
        (filter (\<lambda>j. blo \<le> j) (takeWhile (\<lambda>j. j < bhi) (b2j b (a ! i)))) (\<lambda>_. 0, best)"
      using inner best by (simp add: js_def)
    have q1: "\<forall>j. new j \<le> j + 1 - blo" using ib by simp
    have q3: "blo \<le> fst (snd (ni, nj, ns))" using ib by simp
    have q4: "(snd (snd (ni, nj, ns)) = 0 \<and> fst (snd (ni, nj, ns)) = blo)
        \<or> fst (snd (ni, nj, ns)) + snd (snd (ni, nj, ns)) \<le> bhi" using ib by simp
    show ?thesis
      by (rule 1(1) [OF True inner' q1 q3 q4 rec])
  qed
qed

lemma extend_left_bounds_b:
  "blo \<le> bestj \<Longrightarrow> extend_left a b alo blo (besti, bestj, bestsize) = (bi, bj, bs) \<Longrightarrow>
   blo \<le> bj \<and> bj + bs = bestj + bestsize"
proof (induction a b alo blo "(besti, bestj, bestsize)" arbitrary: besti bestj bestsize
       rule: extend_left.induct)
  case (1 a b alo blo besti bestj bestsize)
  show ?case
  proof (cases "alo < besti \<and> blo < bestj \<and> a ! (besti - 1) = b ! (bestj - 1)")
    case True
    then have "extend_left a b alo blo (besti, bestj, bestsize)
        = extend_left a b alo blo (besti - 1, bestj - 1, bestsize + 1)"
      by (subst extend_left.simps) simp
    then have rec: "extend_left a b alo blo (besti - 1, bestj - 1, bestsize + 1) = (bi, bj, bs)"
      using 1(3) by simp
    have le: "blo \<le> bestj - 1" using True by linarith
    have "blo \<le> bj \<and> bj + bs = bestj - 1 + (bestsize + 1)"
      by (rule 1(1) [OF True le rec])
    then show ?thesis using True by linarith
  next
    case False
    then have "extend_left a b alo blo (besti, bestj, bestsize) = (besti, bestj, bestsize)"
      by (subst extend_left.simps) auto
    with 1(2,3) show ?thesis by simp
  qed
qed

lemma extend_right_bounds_b:
  "extend_right a b ahi bhi (besti, bestj, bestsize) = (bi, bj, bs) \<Longrightarrow>
   bj = bestj \<and> (bs = bestsize \<or> bj + bs \<le> bhi)"
proof (induction a b ahi bhi "(besti, bestj, bestsize)" arbitrary: besti bestj bestsize
       rule: extend_right.induct)
  case (1 a b ahi bhi besti bestj bestsize)
  show ?case
  proof (cases "besti + bestsize < ahi \<and> bestj + bestsize < bhi
         \<and> a ! (besti + bestsize) = b ! (bestj + bestsize)")
    case True
    then have "extend_right a b ahi bhi (besti, bestj, bestsize)
        = extend_right a b ahi bhi (besti, bestj, bestsize + 1)"
      by (subst extend_right.simps) simp
    then have rec: "extend_right a b ahi bhi (besti, bestj, bestsize + 1) = (bi, bj, bs)"
      using 1(2) by simp
    have "bj = bestj \<and> (bs = bestsize + 1 \<or> bj + bs \<le> bhi)"
      by (rule 1(1) [OF True rec])
    then show ?thesis using True by linarith
  next
    case False
    then have "extend_right a b ahi bhi (besti, bestj, bestsize) = (besti, bestj, bestsize)"
      by (subst extend_right.simps) auto
    with 1(2) show ?thesis by simp
  qed
qed

lemma find_longest_match_bounds_b:
  assumes "find_longest_match a b alo ahi blo bhi = (i, j, k)" "k \<noteq> 0"
  shows "blo \<le> j \<and> j + k \<le> bhi"
proof -
  obtain i1 j1 k1 where o: "outer_loop a b alo ahi blo bhi (\<lambda>_. 0) (alo, blo, 0) = (i1, j1, k1)"
    by (metis surj_pair)
  obtain i2 j2 k2 where l: "extend_left a b alo blo (i1, j1, k1) = (i2, j2, k2)"
    by (metis surj_pair)
  have r: "extend_right a b ahi bhi (i2, j2, k2) = (i, j, k)"
    using assms(1) o l by (simp add: find_longest_match_def)
  have 1: "blo \<le> j1 \<and> ((k1 = 0 \<and> j1 = blo) \<or> j1 + k1 \<le> bhi)"
    by (rule outer_loop_bounds_b [where j2len = "\<lambda>_. 0" and best = "(alo, blo, 0)", OF _ _ _ o])
       simp_all
  then have a1: "blo \<le> j1" by simp
  have 2: "blo \<le> j2 \<and> j2 + k2 = j1 + k1"
    by (rule extend_left_bounds_b [OF a1 l])
  have 3: "j = j2 \<and> (k = k2 \<or> j + k \<le> bhi)"
    by (rule extend_right_bounds_b [OF r])
  show ?thesis using 1 2 3 assms(2) by linarith
qed

lemma count_matches_le:
  "count_matches a b alo ahi blo bhi \<le> ahi - alo \<and> count_matches a b alo ahi blo bhi \<le> bhi - blo"
proof (induction a b alo ahi blo bhi rule: count_matches.induct)
  case (1 a b alo ahi blo bhi)
  obtain i j k where f: "find_longest_match a b alo ahi blo bhi = (i, j, k)"
    by (metis surj_pair)
  show ?case
  proof (cases "k = 0")
    case True
    with f show ?thesis by (subst (1 2) count_matches.simps) simp
  next
    case False
    have ba: "alo \<le> i \<and> i + k \<le> ahi" by (rule find_longest_match_bounds [OF f False])
    have bb: "blo \<le> j \<and> j + k \<le> bhi" by (rule find_longest_match_bounds_b [OF f False])
    define L where "L = (if alo < i \<and> blo < j then count_matches a b alo i blo j else 0)"
    define R where "R = (if i + k < ahi \<and> j + k < bhi
        then count_matches a b (i + k) ahi (j + k) bhi else 0)"
    have l: "L \<le> i - alo \<and> L \<le> j - blo"
      using 1(1) [OF f [symmetric] refl False] by (simp add: L_def)
    have r: "R \<le> ahi - (i + k) \<and> R \<le> bhi - (j + k)"
      using 1(2) [OF f [symmetric] refl False] by (simp add: R_def)
    have "count_matches a b alo ahi blo bhi = k + L + R"
      using f False by (subst count_matches.simps) (simp add: L_def R_def)
    then show ?thesis using l r ba bb by linarith
  qed
qed

lemma ratio_range: "0 \<le> ratio a b \<and> ratio a b \<le> 1"
proof (cases "length a + length b = 0")
  case True
  then show ?thesis by (simp add: ratio_def)
next
  case False
  define m where "m = count_matches a b 0 (length a) 0 (length b)"
  define X where "X = 2 * rat_of_nat m"
  define T where "T = rat_of_nat (length a + length b)"
  have "m \<le> length a" "m \<le> length b"
    using count_matches_le [of a b 0 "length a" 0 "length b"] by (simp_all add: m_def)
  then have "2 * m \<le> length a + length b" by linarith
  then have "rat_of_nat (2 * m) \<le> rat_of_nat (length a + length b)"
    by (simp only: of_nat_le_iff)
  then have le: "X \<le> T" by (simp add: X_def T_def)
  have "0 < length a + length b" using False by linarith
  then have pos: "0 < T" unfolding T_def by (simp only: of_nat_0_less_iff)
  have nn: "0 \<le> X" by (simp add: X_def)
  have u: "X / T \<le> 1" using pos le by (simp only: divide_le_eq_1_pos)
  have l: "0 \<le> X / T" using nn pos by (simp only: zero_le_divide_iff) simp
  have "ratio a b = X / T"
    using False by (simp add: ratio_def Let_def X_def T_def m_def)
  with u l show ?thesis by simp
qed

lemma b2j_set:
  "set (b2j b c) = (if popular b c then {} else {j. j < length b \<and> b ! j = c})"
  by (auto simp: b2j_def)

lemma popular_short: "length b < 200 \<Longrightarrow> \<not> popular b c"
  by (simp add: popular_def)

lemma inner_loop_size:
  "inner_loop i j2len js (nw, (bi, bj, bs)) = (nw', (bi', bj', bs')) \<Longrightarrow>
   bs \<le> bs' \<and> (js \<noteq> [] \<longrightarrow> 1 \<le> bs')"
proof (induction js arbitrary: nw bi bj bs)
  case Nil
  then show ?case by simp
next
  case (Cons j js)
  define k where "k = (if j = 0 then 0 else j2len (j - 1)) + 1"
  have k: "1 \<le> k" by (simp add: k_def)
  show ?case
  proof (cases "bs < k")
    case True
    then have "inner_loop i j2len js (nw(j := k), (i + 1 - k, j + 1 - k, k)) = (nw', (bi', bj', bs'))"
      using Cons.prems by (simp add: k_def Let_def)
    from Cons.IH [OF this] True k show ?thesis by linarith
  next
    case False
    then have "inner_loop i j2len js (nw(j := k), (bi, bj, bs)) = (nw', (bi', bj', bs'))"
      using Cons.prems by (simp add: k_def Let_def)
    from Cons.IH [OF this] False k show ?thesis by linarith
  qed
qed

lemma outer_loop_size:
  "outer_loop a b i ahi blo bhi j2len best = (bi, bj, bs) \<Longrightarrow>
   snd (snd best) \<le> bs
   \<and> ((\<exists>i'. i \<le> i' \<and> i' < ahi \<and> (filter (\<lambda>j. blo \<le> j) (takeWhile (\<lambda>j. j < bhi) (b2j b (a ! i')))) \<noteq> []) \<longrightarrow> 1 \<le> bs)
   \<and> ((\<forall>i'. i \<le> i' \<and> i' < ahi \<longrightarrow> (filter (\<lambda>j. blo \<le> j) (takeWhile (\<lambda>j. j < bhi) (b2j b (a ! i')))) = []) \<longrightarrow> (bi, bj, bs) = best)"
proof (induction a b i ahi blo bhi j2len best rule: outer_loop.induct)
  case (1 a b i ahi blo bhi j2len best)
  show ?case
  proof (cases "i < ahi")
    case False
    then have "outer_loop a b i ahi blo bhi j2len best = best"
      by (subst outer_loop.simps) simp
    with 1(2) have "best = (bi, bj, bs)" by simp
    with False show ?thesis by auto
  next
    case True
    obtain besti bestj bestsize where best: "best = (besti, bestj, bestsize)"
      by (cases best) auto
    obtain new ni nj ns where
      inner: "inner_loop i j2len (filter (\<lambda>j. blo \<le> j) (takeWhile (\<lambda>j. j < bhi) (b2j b (a ! i)))) (\<lambda>_. 0, (besti, bestj, bestsize))
          = (new, (ni, nj, ns))"
      by (metis surj_pair)
    have sz: "bestsize \<le> ns
        \<and> (filter (\<lambda>j. blo \<le> j) (takeWhile (\<lambda>j. j < bhi) (b2j b (a ! i))) \<noteq> [] \<longrightarrow> 1 \<le> ns)"
      by (rule inner_loop_size [OF inner])
    have "outer_loop a b i ahi blo bhi j2len best = outer_loop a b (Suc i) ahi blo bhi new (ni, nj, ns)"
      using True inner best by (subst outer_loop.simps) simp
    then have rec: "outer_loop a b (Suc i) ahi blo bhi new (ni, nj, ns) = (bi, bj, bs)"
      using 1(2) by simp
    have inner': "(new, (ni, nj, ns)) = inner_loop i j2len
        (filter (\<lambda>j. blo \<le> j) (takeWhile (\<lambda>j. j < bhi) (b2j b (a ! i)))) (\<lambda>_. 0, best)"
      using inner best by simp
    have ih: "snd (snd (ni, nj, ns)) \<le> bs
      \<and> ((\<exists>i'. Suc i \<le> i' \<and> i' < ahi \<and> (filter (\<lambda>j. blo \<le> j) (takeWhile (\<lambda>j. j < bhi) (b2j b (a ! i')))) \<noteq> []) \<longrightarrow> 1 \<le> bs)
      \<and> ((\<forall>i'. Suc i \<le> i' \<and> i' < ahi \<longrightarrow> (filter (\<lambda>j. blo \<le> j) (takeWhile (\<lambda>j. j < bhi) (b2j b (a ! i')))) = []) \<longrightarrow> (bi, bj, bs) = (ni, nj, ns))"
      by (rule 1(1) [OF True inner' rec])
    have a: "snd (snd best) \<le> bs" using ih sz best by simp
    have b: "(\<exists>i'. i \<le> i' \<and> i' < ahi \<and> (filter (\<lambda>j. blo \<le> j) (takeWhile (\<lambda>j. j < bhi) (b2j b (a ! i')))) \<noteq> []) \<longrightarrow> 1 \<le> bs"
    proof
      assume "\<exists>i'. i \<le> i' \<and> i' < ahi \<and> (filter (\<lambda>j. blo \<le> j) (takeWhile (\<lambda>j. j < bhi) (b2j b (a ! i')))) \<noteq> []"
      then obtain i' where i': "i \<le> i'" "i' < ahi" "(filter (\<lambda>j. blo \<le> j) (takeWhile (\<lambda>j. j < bhi) (b2j b (a ! i')))) \<noteq> []" by blast
      show "1 \<le> bs"
      proof (cases "i' = i")
        case True
        with i' sz ih show ?thesis by simp
      next
        case False
        with i' have "Suc i \<le> i'" by simp
        with i' ih show ?thesis by blast
      qed
    qed
    have c: "(\<forall>i'. i \<le> i' \<and> i' < ahi \<longrightarrow> (filter (\<lambda>j. blo \<le> j) (takeWhile (\<lambda>j. j < bhi) (b2j b (a ! i')))) = []) \<longrightarrow> (bi, bj, bs) = best"
    proof
      assume e: "\<forall>i'. i \<le> i' \<and> i' < ahi \<longrightarrow> (filter (\<lambda>j. blo \<le> j) (takeWhile (\<lambda>j. j < bhi) (b2j b (a ! i')))) = []"
      then have "(filter (\<lambda>j. blo \<le> j) (takeWhile (\<lambda>j. j < bhi) (b2j b (a ! i)))) = []" using True by simp
      with inner have "(ni, nj, ns) = (besti, bestj, bestsize)" by simp
      moreover have "(bi, bj, bs) = (ni, nj, ns)" using ih e by simp
      ultimately show "(bi, bj, bs) = best" using best by simp
    qed
    show ?thesis using a b c by blast
  qed
qed

lemma row_whole:
  "length b < 200 \<Longrightarrow> set (filter (\<lambda>j. 0 \<le> j) (takeWhile (\<lambda>j. j < length b) (b2j b (a ! i)))) = {j. j < length b \<and> b ! j = a ! i}"
proof -
  assume s: "length b < 200"
  have tw: "takeWhile (\<lambda>j. j < length b) (b2j b (a ! i)) = b2j b (a ! i)"
    by (simp add: takeWhile_eq_all_conv b2j_def)
  have "set (b2j b (a ! i)) = {j. j < length b \<and> b ! j = a ! i}"
    using popular_short [OF s] by (simp add: b2j_set)
  then show ?thesis unfolding tw by simp
qed

lemma find_longest_match_none:
  assumes "length b < 200"
  shows "snd (snd (find_longest_match a b 0 (length a) 0 (length b))) = 0
         \<longleftrightarrow> set a \<inter> set b = {}"
proof -
  obtain i1 j1 k1 where o: "outer_loop a b 0 (length a) 0 (length b) (\<lambda>_. 0) (0, 0, 0) = (i1, j1, k1)"
    by (metis surj_pair)
  obtain i2 j2 k2 where l: "extend_left a b 0 0 (i1, j1, k1) = (i2, j2, k2)"
    by (metis surj_pair)
  obtain i3 j3 k3 where r: "extend_right a b (length a) (length b) (i2, j2, k2) = (i3, j3, k3)"
    by (metis surj_pair)
  have f: "find_longest_match a b 0 (length a) 0 (length b) = (i3, j3, k3)"
    using o l r by (simp add: find_longest_match_def)
  note sz = outer_loop_size [OF o]
  have m2: "k1 \<le> k2" using extend_left_bounds [OF _ l] by simp
  have m3: "k2 \<le> k3" using extend_right_bounds [OF r] by simp
  show ?thesis
  proof (cases "set a \<inter> set b = {}")
    case True
    have "\<forall>i'. 0 \<le> i' \<and> i' < length a \<longrightarrow> (filter (\<lambda>j. 0 \<le> j) (takeWhile (\<lambda>j. j < length b) (b2j b (a ! i')))) = []"
    proof (intro allI impI)
      fix i' assume "0 \<le> i' \<and> i' < length a"
      then have "a ! i' \<in> set a" by simp
      with True have "a ! i' \<notin> set b" by blast
      then have "set (filter (\<lambda>j. 0 \<le> j) (takeWhile (\<lambda>j. j < length b) (b2j b (a ! i')))) = {}"
        unfolding row_whole [OF assms] by (auto simp: in_set_conv_nth)
      then show "(filter (\<lambda>j. 0 \<le> j) (takeWhile (\<lambda>j. j < length b) (b2j b (a ! i')))) = []" by simp
    qed
    with sz have "(i1, j1, k1) = (0, 0, 0)" by blast
    then have l0: "extend_left a b 0 0 (0, 0, 0) = (i2, j2, k2)" using l by simp
    have "extend_left a b 0 0 (0, 0, 0) = (0, 0, 0)" by (subst extend_left.simps) simp
    with l0 have e2: "(i2, j2, k2) = (0, 0, 0)" by simp
    have "\<not> (0 < length a \<and> 0 < length b \<and> a ! 0 = b ! 0)"
    proof
      assume h: "0 < length a \<and> 0 < length b \<and> a ! 0 = b ! 0"
      have "a ! 0 \<in> set a" using h nth_mem [of 0 a] by blast
      moreover have "b ! 0 \<in> set b" using h nth_mem [of 0 b] by blast
      ultimately show False using h True by (metis disjoint_iff)
    qed
    then have "extend_right a b (length a) (length b) (0, 0, 0) = (0, 0, 0)"
      by (subst extend_right.simps) auto
    with r e2 have "k3 = 0" by simp
    with f True show ?thesis by simp
  next
    case False
    then obtain c where "c \<in> set a" "c \<in> set b" by blast
    then obtain i j where ij: "i < length a" "a ! i = c" "j < length b" "b ! j = c"
      by (metis in_set_conv_nth)
    then have "j \<in> set (filter (\<lambda>j. 0 \<le> j) (takeWhile (\<lambda>j. j < length b) (b2j b (a ! i))))"
      unfolding row_whole [OF assms] by simp
    then have "(filter (\<lambda>j. 0 \<le> j) (takeWhile (\<lambda>j. j < length b) (b2j b (a ! i)))) \<noteq> []" by auto
    with ij(1) sz have "1 \<le> k1" by blast
    with m2 m3 have "k3 \<noteq> 0" by linarith
    with f False show ?thesis by simp
  qed
qed

lemma count_matches_zero_iff:
  "count_matches a b alo ahi blo bhi = 0
     \<longleftrightarrow> snd (snd (find_longest_match a b alo ahi blo bhi)) = 0"
proof -
  obtain i j k where f: "find_longest_match a b alo ahi blo bhi = (i, j, k)"
    by (metis surj_pair)
  show ?thesis using f by (subst count_matches.simps) simp
qed

lemma no_match_iff_disjoint:
  "length b < 200 \<Longrightarrow>
   count_matches a b 0 (length a) 0 (length b) = 0 \<longleftrightarrow> set a \<inter> set b = {}"
  by (simp only: count_matches_zero_iff find_longest_match_none)

subsection \<open>Sentences, words and tokens\<close>

lemma alnum_not_space: "is_alnum c \<Longrightarrow> \<not> is_space c"
  by (auto simp: is_alnum_def is_space_def Let_def)

lemma py_split_from_concat:
  "\<forall>c \<in> set acc. \<not> is_space c \<Longrightarrow> concat (py_split_from acc s) = rev acc @ non_space s"
proof (induction s arbitrary: acc)
  case Nil
  then show ?case by simp
next
  case (Cons c cs)
  show ?case
  proof (cases "is_space c")
    case True
    have "concat (py_split_from [] cs) = non_space cs" using Cons.IH [of "[]"] by simp
    with True show ?thesis by (simp add: non_space_Cons)
  next
    case False
    then have "\<forall>d \<in> set (c # acc). \<not> is_space d" using Cons.prems by simp
    from Cons.IH [OF this] False show ?thesis by (simp add: non_space_Cons)
  qed
qed

lemma py_split_from_nonempty: "list_all (\<lambda>w. w \<noteq> []) (py_split_from acc s)"
  by (induction s arbitrary: acc) auto

lemma py_split_content:
  "concat (py_split s) = non_space s \<and> list_all (\<lambda>w. w \<noteq> []) (py_split s)"
  using py_split_from_concat [of "[]" s] py_split_from_nonempty [of "[]" s]
  by (simp add: py_split_def)

lemma concat_drop_empty: "concat (filter (\<lambda>w. w \<noteq> []) ws) = concat ws"
  by (induction ws) auto

lemma filter_alnum_non_space: "filter is_alnum (non_space s) = filter is_alnum s"
  by (induction s) (auto simp: non_space_Cons alnum_not_space)

lemma words_of_content:
  "concat (words_of s) = filter is_alnum s
   \<and> list_all (\<lambda>w. w \<noteq> [] \<and> list_all is_alnum w) (words_of s)"
proof
  have "concat (words_of s) = concat (map (filter is_alnum) (py_split s))"
    by (simp add: words_of_def concat_drop_empty)
  also have "\<dots> = filter is_alnum (concat (py_split s))" by (simp add: filter_concat)
  also have "\<dots> = filter is_alnum s"
    using py_split_content [of s] by (simp add: filter_alnum_non_space)
  finally show "concat (words_of s) = filter is_alnum s" .
  show "list_all (\<lambda>w. w \<noteq> [] \<and> list_all is_alnum w) (words_of s)"
    by (auto simp: words_of_def list_all_iff)
qed

lemma sentences_of_content:
  "non_space (concat (sentences_of chunk)) = non_space chunk
   \<and> list_all (\<lambda>s. s \<noteq> [] \<and> py_strip s = s) (sentences_of chunk)"
proof
  show "non_space (concat (sentences_of chunk)) = non_space chunk"
    using non_space_split_sentences [of "[]" chunk]
    by (simp add: sentences_of_def non_space_strip_pieces)
  show "list_all (\<lambda>s. s \<noteq> [] \<and> py_strip s = s) (sentences_of chunk)"
    by (auto simp: sentences_of_def list_all_iff)
qed

subsection \<open>Question generation\<close>

text \<open>
  C3. For every chunk, question generation returns nothing exactly when the chunk has no
  non-empty sentence or the longest sentence has no token left once the characters outside
  \<open>[A-Za-z0-9]\<close> are removed; otherwise it returns the question
  \<open>What does the term 'K' refer to in this context?\<close> where \<open>K\<close> is the longest such
  token of the longest sentence (both the first one of maximal length), that sentence,
  trimmed, as the answer, and the number of whitespace-separated words of the whole chunk.
  The sentences are trimmed, non-empty and keep the non-whitespace content of the chunk;
  the tokens are non-empty, alphanumeric and keep the alphanumeric content of the sentence.
\<close>

theorem question_generation:
  "(generate_question_from_chunk chunk = None \<longleftrightarrow>
      sentences_of chunk = []
      \<or> (\<exists>s. is_first_max length (sentences_of chunk) s \<and> words_of s = []))
   \<and> (\<forall>q a d. generate_question_from_chunk chunk = Some (q, a, d) \<longrightarrow>
        (\<exists>s k. is_first_max length (sentences_of chunk) s \<and> is_first_max length (words_of s) k
               \<and> q = ''What does the term '' @ [CHR 0x27] @ k @ [CHR 0x27]
                       @ '' refer to in this context?''
               \<and> a = s \<and> py_strip s = s
               \<and> d = int (length (py_split chunk))))
   \<and> non_space (concat (sentences_of chunk)) = non_space chunk
   \<and> list_all (\<lambda>s. s \<noteq> [] \<and> py_strip s = s) (sentences_of chunk)
   \<and> concat (words_of sentence) = filter is_alnum sentence
   \<and> list_all (\<lambda>w. w \<noteq> [] \<and> list_all is_alnum w) (words_of sentence)
   \<and> concat (py_split chunk) = non_space chunk
   \<and> list_all (\<lambda>w. w \<noteq> []) (py_split chunk)"
proof -
  have main: "(generate_question_from_chunk chunk = None \<longleftrightarrow>
      sentences_of chunk = []
      \<or> (\<exists>s. is_first_max length (sentences_of chunk) s \<and> words_of s = []))
   \<and> (\<forall>q a d. generate_question_from_chunk chunk = Some (q, a, d) \<longrightarrow>
        (\<exists>s k. is_first_max length (sentences_of chunk) s \<and> is_first_max length (words_of s) k
               \<and> q = ''What does the term '' @ [CHR 0x27] @ k @ [CHR 0x27]
                       @ '' refer to in this context?''
               \<and> a = s \<and> py_strip s = s
               \<and> d = int (length (py_split chunk))))"
  proof (cases "sentences_of chunk")
    case Nil
    then show ?thesis by (simp add: generate_question_from_chunk_def)
  next
    case (Cons s ss)
    define longest where "longest = max_from length s ss"
    have fl: "is_first_max length (sentences_of chunk) longest"
      unfolding Cons longest_def by (rule max_from_first_longest)
    then have "longest \<in> set (sentences_of chunk)" by (simp add: is_first_max_def)
    then have tr: "py_strip longest = longest" by (rule sentences_of_trimmed)
    have uniq: "\<And>t. is_first_max length (sentences_of chunk) t \<Longrightarrow> t = longest"
      by (rule first_longest_unique [OF _ fl])
    show ?thesis
    proof (cases "words_of longest")
      case Nil
      have "generate_question_from_chunk chunk = None"
        using Cons Nil by (simp add: generate_question_from_chunk_def longest_def [symmetric])
      then show ?thesis using fl Nil by auto
    next
      case wc: (Cons w ws)
      define keyword where "keyword = max_from length w ws"
      have fk: "is_first_max length (words_of longest) keyword"
        unfolding wc keyword_def by (rule max_from_first_longest)
      have g: "generate_question_from_chunk chunk
          = Some (''What does the term '' @ [CHR 0x27] @ keyword @ [CHR 0x27]
                    @ '' refer to in this context?'',
                  longest, int (length (py_split chunk)))"
        using Cons wc tr
        by (simp add: generate_question_from_chunk_def longest_def [symmetric] keyword_def
            question_template_def)
      have "\<not> (\<exists>t. is_first_max length (sentences_of chunk) t \<and> words_of t = [])"
        using uniq wc by auto
      then show ?thesis using g fl fk tr Cons by auto
    qed
  qed
  show ?thesis
    by (intro conjI conjunct1 [OF main] conjunct2 [OF main]
        conjunct1 [OF sentences_of_content] conjunct2 [OF sentences_of_content]
        conjunct1 [OF words_of_content] conjunct2 [OF words_of_content]
        conjunct1 [OF py_split_content] conjunct2 [OF py_split_content])
qed

theorem question_generation_witness:
  "generate_question_from_chunk ''Go. The (so-called) answer -- is 42!  Ok?''
     = Some (''What does the term 'socalled' refer to in this context?'',
             ''The (so-called) answer -- is 42!'', 8)
   \<and> is_first_max length (sentences_of ''Go. The (so-called) answer -- is 42!  Ok?'')
         ''The (so-called) answer -- is 42!''
   \<and> is_first_max length (words_of ''The (so-called) answer -- is 42!'') ''socalled''
   \<and> (\<exists>s k. is_first_max length (sentences_of ''Go. The (so-called) answer -- is 42!  Ok?'') s
          \<and> is_first_max length (words_of s) k
          \<and> ''What does the term 'socalled' refer to in this context?''
              = ''What does the term '' @ [CHR 0x27] @ k @ [CHR 0x27]
                  @ '' refer to in this context?''
          \<and> ''The (so-called) answer -- is 42!'' = s \<and> py_strip s = s
          \<and> 8 = int (length (py_split ''Go. The (so-called) answer -- is 42!  Ok?'')))
   \<and> generate_question_from_chunk ''Aaa bbb. Ccc ddd.''
       = Some (''What does the term 'Aaa' refer to in this context?'', ''Aaa bbb.'', 4)
   \<and> generate_question_from_chunk ''... !!!'' = None
   \<and> (sentences_of ''... !!!'' = []
      \<or> (\<exists>s. is_first_max length (sentences_of ''... !!!'') s \<and> words_of s = []))
   \<and> generate_question_from_chunk ''   '' = None
   \<and> sentences_of ''   '' = []"
proof -
  have g: "generate_question_from_chunk ''Go. The (so-called) answer -- is 42!  Ok?''
     = Some (''What does the term 'socalled' refer to in this context?'',
             ''The (so-called) answer -- is 42!'', 8)"
    by code_simp
  have fs: "is_first_max length (sentences_of ''Go. The (so-called) answer -- is 42!  Ok?'')
         ''The (so-called) answer -- is 42!''"
    by code_simp
  have fw: "is_first_max length (words_of ''The (so-called) answer -- is 42!'') ''socalled''"
    by code_simp
  have t: "generate_question_from_chunk ''Aaa bbb. Ccc ddd.''
       = Some (''What does the term 'Aaa' refer to in this context?'', ''Aaa bbb.'', 4)"
    by code_simp
  have n: "generate_question_from_chunk ''... !!!'' = None"
    by code_simp
  have e: "generate_question_from_chunk ''   '' = None"
    by code_simp
  have se: "sentences_of ''   '' = []"
    by code_simp
  note q1 = question_generation [of "''Go. The (so-called) answer -- is 42!  Ok?''" "[]"]
  note q2 = question_generation [of "''... !!!''" "[]"]
  have a: "\<exists>s k. is_first_max length (sentences_of ''Go. The (so-called) answer -- is 42!  Ok?'') s
          \<and> is_first_max length (words_of s) k
          \<and> ''What does the term 'socalled' refer to in this context?''
              = ''What does the term '' @ [CHR 0x27] @ k @ [CHR 0x27]
                  @ '' refer to in this context?''
          \<and> ''The (so-called) answer -- is 42!'' = s \<and> py_strip s = s
          \<and> 8 = int (length (py_split ''Go. The (so-called) answer -- is 42!  Ok?''))"
    by (rule conjunct1 [OF conjunct2 [OF q1], rule_format, OF g])
  have b: "sentences_of ''... !!!'' = []
      \<or> (\<exists>s. is_first_max length (sentences_of ''... !!!'') s \<and> words_of s = [])"
    by (rule iffD1 [OF conjunct1 [OF q2] n])
  show ?thesis
    by (intro conjI g fs fw a t n b e se)
qed

subsection \<open>Grading\<close>

text \<open>
  C4. Grading trims and lowercases both strings, answers ``incorrect'' when either
  normalised string is empty, and otherwise answers ``correct'' exactly when the ratio
  \<open>2 * M / T\<close> of the sequence matcher on the normalised strings is at least \<open>0.6\<close>,
  where \<open>M\<close> is the number of matched characters and \<open>T\<close> the sum of the two lengths.
  \<open>M\<close> is at most either length, so the ratio lies between 0 and 1, and for an expected
  answer of fewer than 200 characters \<open>M\<close> is 0 exactly when the strings share no
  character. In particular \<open>Paris\<close> against \<open>Paris\<close> is correct (ratio 1), the empty
  answer is incorrect, \<open>xyz\<close> against \<open>abc\<close> is incorrect (ratio 0), and \<open>Pariss\<close>
  against \<open>Paris\<close> is correct. Further values show that case and surrounding whitespace
  are ignored and do matter to the matcher, matches that are not at the start of the
  strings, both sides of the threshold, and the index without its popular elements.
\<close>

theorem grading:
  "(check_answer user correct =
     (py_lower (py_strip user) \<noteq> [] \<and> py_lower (py_strip correct) \<noteq> []
      \<and> 6 / 10 \<le> ratio (py_lower (py_strip user)) (py_lower (py_strip correct))))
   \<and> ratio a b =
       (if length a + length b \<noteq> 0
        then 2 * of_nat (count_matches a b 0 (length a) 0 (length b)) / of_nat (length a + length b)
        else 1)
   \<and> 0 \<le> ratio a b
   \<and> ratio a b \<le> 1
   \<and> count_matches a b 0 (length a) 0 (length b) \<le> length a
   \<and> count_matches a b 0 (length a) 0 (length b) \<le> length b
   \<and> (length b < 200 \<longrightarrow>
       (count_matches a b 0 (length a) 0 (length b) = 0 \<longleftrightarrow> set a \<inter> set b = {}))
   \<and> check_answer ''Paris'' ''Paris''
   \<and> ratio ''paris'' ''paris'' = 1
   \<and> \<not> check_answer [] ''Paris''
   \<and> \<not> check_answer ''Paris'' []
   \<and> \<not> check_answer ''   '' ''Paris''
   \<and> \<not> check_answer ''xyz'' ''abc''
   \<and> ratio ''xyz'' ''abc'' = 0
   \<and> check_answer ''Pariss'' ''Paris''
   \<and> ratio ''pariss'' ''paris'' = 10 / 11
   \<and> py_lower ''ABCDEFGHIJKLMNOPQRSTUVWXYZ'' = ''abcdefghijklmnopqrstuvwxyz''
   \<and> py_lower ''abcdefghijklmnopqrstuvwxyz 0123456789 .,;:!?-_()[]''
       = ''abcdefghijklmnopqrstuvwxyz 0123456789 .,;:!?-_()[]''
   \<and> check_answer ''  PARIS '' ''paris''
   \<and> ratio ''PARIS'' ''paris'' = 0
   \<and> check_answer ''ab        '' ''ab''
   \<and> ratio ''ab        '' ''ab'' = 4 / 12
   \<and> ratio ''abxcd'' ''abcd'' = 8 / 9
   \<and> ratio ''xparis'' ''paris'' = 10 / 11
   \<and> ratio ''private Thread currentThread;'' ''private volatile Thread currentThread;''
       = 58 / 67
   \<and> ratio ''tide'' ''diet'' = 2 / 8
   \<and> ratio ''diet'' ''tide'' = 4 / 8
   \<and> check_answer ''abcxx'' ''abcyy''
   \<and> ratio ''abcxx'' ''abcyy'' = 6 / 10
   \<and> \<not> check_answer ''abxx'' ''abyyy''
   \<and> ratio ''abxx'' ''abyyy'' = 4 / 9
   \<and> ratio ''a'' (''b'' @ replicate 198 (CHR ''a'')) = 2 / 200
   \<and> ratio ''a'' (''b'' @ replicate 199 (CHR ''a'')) = 0
   \<and> ratio ''a'' (''b'' @ ''aaa'' @ replicate 196 (CHR ''y'')) = 2 / 201
   \<and> ratio ''a'' (''b'' @ ''aaaa'' @ replicate 195 (CHR ''y'')) = 0
   \<and> ratio ''ac'' (''z'' @ replicate 198 (CHR ''a'') @ ''c'') = 4 / 202
   \<and> ratio ''ca'' (''c'' @ replicate 198 (CHR ''a'') @ ''z'') = 4 / 202"
proof -
  have general: "check_answer user correct =
     (py_lower (py_strip user) \<noteq> [] \<and> py_lower (py_strip correct) \<noteq> []
      \<and> 6 / 10 \<le> ratio (py_lower (py_strip user)) (py_lower (py_strip correct)))"
    by (simp add: check_answer_def Let_def)
  have r: "ratio a b =
       (if length a + length b \<noteq> 0
        then 2 * of_nat (count_matches a b 0 (length a) 0 (length b)) / of_nat (length a + length b)
        else 1)"
    by (simp add: ratio_def Let_def)
  have rng0: "0 \<le> ratio a b"
    using ratio_range [of a b] by simp
  have rng1: "ratio a b \<le> 1"
    using ratio_range [of a b] by simp
  have ma: "count_matches a b 0 (length a) 0 (length b) \<le> length a"
    using count_matches_le [of a b 0 "length a" 0 "length b"] by simp
  have mb: "count_matches a b 0 (length a) 0 (length b) \<le> length b"
    using count_matches_le [of a b 0 "length a" 0 "length b"] by simp
  have dis: "length b < 200 \<longrightarrow>
       (count_matches a b 0 (length a) 0 (length b) = 0 \<longleftrightarrow> set a \<inter> set b = {})"
    using no_match_iff_disjoint [of b a] by blast
  have e1: "check_answer ''Paris'' ''Paris''"
    by code_simp
  have r1: "ratio ''paris'' ''paris'' = 1"
    by code_simp
  have e2: "\<not> check_answer [] ''Paris''"
    by code_simp
  have e2b: "\<not> check_answer ''Paris'' []"
    by code_simp
  have e2c: "\<not> check_answer ''   '' ''Paris''"
    by code_simp
  have e3: "\<not> check_answer ''xyz'' ''abc''"
    by code_simp
  have r3: "ratio ''xyz'' ''abc'' = 0"
    by code_simp
  have e4: "check_answer ''Pariss'' ''Paris''"
    by code_simp
  have r4: "ratio ''pariss'' ''paris'' = 10 / 11"
    by code_simp
  have l1: "py_lower ''ABCDEFGHIJKLMNOPQRSTUVWXYZ'' = ''abcdefghijklmnopqrstuvwxyz''"
    by code_simp
  have l2: "py_lower ''abcdefghijklmnopqrstuvwxyz 0123456789 .,;:!?-_()[]''
       = ''abcdefghijklmnopqrstuvwxyz 0123456789 .,;:!?-_()[]''"
    by code_simp
  have e5: "check_answer ''  PARIS '' ''paris''"
    by code_simp
  have r5: "ratio ''PARIS'' ''paris'' = 0"
    by code_simp
  have e6: "check_answer ''ab        '' ''ab''"
    by code_simp
  have r6: "ratio ''ab        '' ''ab'' = 4 / 12"
    by code_simp
  have r7: "ratio ''abxcd'' ''abcd'' = 8 / 9"
    by code_simp
  have r8: "ratio ''xparis'' ''paris'' = 10 / 11"
    by code_simp
  have r9: "ratio ''private Thread currentThread;'' ''private volatile Thread currentThread;''
       = 58 / 67"
    by code_simp
  have r10: "ratio ''tide'' ''diet'' = 2 / 8"
    by code_simp
  have r11: "ratio ''diet'' ''tide'' = 4 / 8"
    by code_simp
  have e7: "check_answer ''abcxx'' ''abcyy''"
    by code_simp
  have r12: "ratio ''abcxx'' ''abcyy'' = 6 / 10"
    by code_simp
  have e8: "\<not> check_answer ''abxx'' ''abyyy''"
    by code_simp
  have r13: "ratio ''abxx'' ''abyyy'' = 4 / 9"
    by code_simp
  have j1: "ratio ''a'' (''b'' @ replicate 198 (CHR ''a'')) = 2 / 200"
    by code_simp
  have j2: "ratio ''a'' (''b'' @ replicate 199 (CHR ''a'')) = 0"
    by code_simp
  have j3: "ratio ''a'' (''b'' @ ''aaa'' @ replicate 196 (CHR ''y'')) = 2 / 201"
    by code_simp
  have j4: "ratio ''a'' (''b'' @ ''aaaa'' @ replicate 195 (CHR ''y'')) = 0"
    by code_simp
  have j5: "ratio ''ac'' (''z'' @ replicate 198 (CHR ''a'') @ ''c'') = 4 / 202"
    by code_simp
  have j6: "ratio ''ca'' (''c'' @ replicate 198 (CHR ''a'') @ ''z'') = 4 / 202"
    by code_simp
  show ?thesis
    by (intro conjI general r rng0 rng1 ma mb dis e1 r1 e2 e2b e2c e3 r3 e4 r4 l1 l2 e5 r5 e6 r6 r7 r8 r9 r10 r11 e7 r12 e8 r13 j1 j2 j3 j4 j5 j6)
qed

theorem grading_witness:
  "length ''abc'' < 200
   \<and> set ''xyz'' \<inter> set ''abc'' = {}
   \<and> count_matches ''xyz'' ''abc'' 0 (length ''xyz'') 0 (length ''abc'') = 0
   \<and> length ''diet'' < 200
   \<and> set ''tide'' \<inter> set ''diet'' \<noteq> {}
   \<and> count_matches ''tide'' ''diet'' 0 (length ''tide'') 0 (length ''diet'') \<noteq> 0"
proof -
  have l1: "length ''abc'' < 200" by simp
  have d1: "set ''xyz'' \<inter> set ''abc'' = {}" by simp
  have l2: "length ''diet'' < 200" by simp
  have d2: "set ''tide'' \<inter> set ''diet'' \<noteq> {}" by simp
  note g1 = grading [of "[]" "[]" "''xyz''" "''abc''"]
  note g2 = grading [of "[]" "[]" "''tide''" "''diet''"]
  have i1: "length ''abc'' < 200 \<longrightarrow>
       (count_matches ''xyz'' ''abc'' 0 (length ''xyz'') 0 (length ''abc'') = 0
          \<longleftrightarrow> set ''xyz'' \<inter> set ''abc'' = {})"
    using g1 by (elim conjE)
  have i2: "length ''diet'' < 200 \<longrightarrow>
       (count_matches ''tide'' ''diet'' 0 (length ''tide'') 0 (length ''diet'') = 0
          \<longleftrightarrow> set ''tide'' \<inter> set ''diet'' = {})"
    using g2 by (elim conjE)
  have c1: "count_matches ''xyz'' ''abc'' 0 (length ''xyz'') 0 (length ''abc'') = 0"
    using i1 l1 d1 by blast
  have c2: "count_matches ''tide'' ''diet'' 0 (length ''tide'') 0 (length ''diet'') \<noteq> 0"
    using i2 l2 d2 by blast
  show ?thesis
    by (intro conjI l1 d1 c1 l2 d2 c2)
qed

subsection \<open>Level reselection\<close>



subsection \<open>The level stays between 0 and 2\<close>

text \<open>
  C6, as stated: from level 1 two consecutive correct answers reach and stay at level 2,
  and an incorrect answer at level 0 stays at level 0. In the session below the bucket of
  level 2 is empty: the first correct answer moves the level from 1 to 2, the next
  iteration reselects level 0 before it serves, and after the second correct answer the
  level is 1. In the second session the level is 0 and its bucket is empty: the iteration
  reselects level 2, and after the incorrect answer the level is 1.
\<close>

theorem reselection_between_answers:
  "current_level (sess \<lparr>sess = \<lparr>raw_notes = [], topic = None, min_chunk_length = 50, max_chunk_length = 300,
          questions_by_level = [(0, [\<lparr>text' = ''q'', answer = ''a'', difficulty = 0\<rparr>, \<lparr>text' = ''q'', answer = ''a'', difficulty = 0\<rparr>]), (1, [\<lparr>text' = ''m'', answer = ''b'', difficulty = 1\<rparr>]), (2, [])],
          current_level = 1, correct_count = 0, incorrect_count = 0\<rparr>,
        stdin = [''b'', ''a''], stdout = []\<rparr>) = 1
   \<and> check_answer ''b'' ''b'' \<and> check_answer ''a'' ''a''
   \<and> fst (ask_loop 2 True [0] \<lparr>sess = \<lparr>raw_notes = [], topic = None, min_chunk_length = 50, max_chunk_length = 300,
          questions_by_level = [(0, [\<lparr>text' = ''q'', answer = ''a'', difficulty = 0\<rparr>, \<lparr>text' = ''q'', answer = ''a'', difficulty = 0\<rparr>]), (1, [\<lparr>text' = ''m'', answer = ''b'', difficulty = 1\<rparr>]), (2, [])],
          current_level = 1, correct_count = 0, incorrect_count = 0\<rparr>,
        stdin = [''b'', ''a''], stdout = []\<rparr>) = Running
   \<and> current_level (sess (snd (ask_loop 2 True [0] \<lparr>sess = \<lparr>raw_notes = [], topic = None, min_chunk_length = 50, max_chunk_length = 300,
          questions_by_level = [(0, [\<lparr>text' = ''q'', answer = ''a'', difficulty = 0\<rparr>, \<lparr>text' = ''q'', answer = ''a'', difficulty = 0\<rparr>]), (1, [\<lparr>text' = ''m'', answer = ''b'', difficulty = 1\<rparr>]), (2, [])],
          current_level = 1, correct_count = 0, incorrect_count = 0\<rparr>,
        stdin = [''b'', ''a''], stdout = []\<rparr>))) = 2
   \<and> correct_count (sess (snd (ask_loop 2 True [0] \<lparr>sess = \<lparr>raw_notes = [], topic = None, min_chunk_length = 50, max_chunk_length = 300,
          questions_by_level = [(0, [\<lparr>text' = ''q'', answer = ''a'', difficulty = 0\<rparr>, \<lparr>text' = ''q'', answer = ''a'', difficulty = 0\<rparr>]), (1, [\<lparr>text' = ''m'', answer = ''b'', difficulty = 1\<rparr>]), (2, [])],
          current_level = 1, correct_count = 0, incorrect_count = 0\<rparr>,
        stdin = [''b'', ''a''], stdout = []\<rparr>))) = 1
   \<and> fst (ask 2 True \<lparr>sess = \<lparr>raw_notes = [], topic = None, min_chunk_length = 50, max_chunk_length = 300,
          questions_by_level = [(0, [\<lparr>text' = ''q'', answer = ''a'', difficulty = 0\<rparr>, \<lparr>text' = ''q'', answer = ''a'', difficulty = 0\<rparr>]), (1, [\<lparr>text' = ''m'', answer = ''b'', difficulty = 1\<rparr>]), (2, [])],
          current_level = 1, correct_count = 0, incorrect_count = 0\<rparr>,
        stdin = [''b'', ''a''], stdout = []\<rparr>) = None
   \<and> correct_count (sess (snd (ask 2 True \<lparr>sess = \<lparr>raw_notes = [], topic = None, min_chunk_length = 50, max_chunk_length = 300,
          questions_by_level = [(0, [\<lparr>text' = ''q'', answer = ''a'', difficulty = 0\<rparr>, \<lparr>text' = ''q'', answer = ''a'', difficulty = 0\<rparr>]), (1, [\<lparr>text' = ''m'', answer = ''b'', difficulty = 1\<rparr>]), (2, [])],
          current_level = 1, correct_count = 0, incorrect_count = 0\<rparr>,
        stdin = [''b'', ''a''], stdout = []\<rparr>))) = 2
   \<and> incorrect_count (sess (snd (ask 2 True \<lparr>sess = \<lparr>raw_notes = [], topic = None, min_chunk_length = 50, max_chunk_length = 300,
          questions_by_level = [(0, [\<lparr>text' = ''q'', answer = ''a'', difficulty = 0\<rparr>, \<lparr>text' = ''q'', answer = ''a'', difficulty = 0\<rparr>]), (1, [\<lparr>text' = ''m'', answer = ''b'', difficulty = 1\<rparr>]), (2, [])],
          current_level = 1, correct_count = 0, incorrect_count = 0\<rparr>,
        stdin = [''b'', ''a''], stdout = []\<rparr>))) = 0
   \<and> current_level (sess (snd (ask 2 True \<lparr>sess = \<lparr>raw_notes = [], topic = None, min_chunk_length = 50, max_chunk_length = 300,
          questions_by_level = [(0, [\<lparr>text' = ''q'', answer = ''a'', difficulty = 0\<rparr>, \<lparr>text' = ''q'', answer = ''a'', difficulty = 0\<rparr>]), (1, [\<lparr>text' = ''m'', answer = ''b'', difficulty = 1\<rparr>]), (2, [])],
          current_level = 1, correct_count = 0, incorrect_count = 0\<rparr>,
        stdin = [''b'', ''a''], stdout = []\<rparr>))) = 1
   \<and> current_level (sess \<lparr>sess = \<lparr>raw_notes = [], topic = None, min_chunk_length = 50, max_chunk_length = 300,
          questions_by_level = [(0, []), (1, []), (2, [\<lparr>text' = ''r'', answer = ''c'', difficulty = 2\<rparr>])],
          current_level = 0, correct_count = 0, incorrect_count = 0\<rparr>,
        stdin = [''zzz''], stdout = []\<rparr>) = 0
   \<and> \<not> check_answer ''zzz'' ''c''
   \<and> incorrect_count (sess (snd (ask 1 True \<lparr>sess = \<lparr>raw_notes = [], topic = None, min_chunk_length = 50, max_chunk_length = 300,
          questions_by_level = [(0, []), (1, []), (2, [\<lparr>text' = ''r'', answer = ''c'', difficulty = 2\<rparr>])],
          current_level = 0, correct_count = 0, incorrect_count = 0\<rparr>,
        stdin = [''zzz''], stdout = []\<rparr>))) = 1
   \<and> current_level (sess (snd (ask 1 True \<lparr>sess = \<lparr>raw_notes = [], topic = None, min_chunk_length = 50, max_chunk_length = 300,
          questions_by_level = [(0, []), (1, []), (2, [\<lparr>text' = ''r'', answer = ''c'', difficulty = 2\<rparr>])],
          current_level = 0, correct_count = 0, incorrect_count = 0\<rparr>,
        stdin = [''zzz''], stdout = []\<rparr>))) = 1"
  by code_simp

text \<open>
  C6, amended: a session starts at level 1, and the level stays in the range from 0 to 2
  through every iteration of the loop, however the loop ends: grading a served question
  raises the level after a correct answer only when it is below 2 and lowers it after an
  incorrect answer only when it is above 0, and the reselection only assigns 0, 1 or 2.
  From level 1, two consecutive correct answers reach and stay at level 2 when the buckets
  of levels 1 and 2 each hold a question to serve, and an incorrect answer to a question
  served at level 0 leaves the level at 0; without a question in the bucket of the current
  level, the reselection moves the level before the next question is served.
\<close>

theorem level_stays_in_range:
  "(\<exists>s. init_session shuffle notes tp min_len max_len = Inr s \<and> current_level s = 1
        \<and> well_formed s)
   \<and> (well_formed (sess w) \<longrightarrow>
        (\<forall>idxs. well_formed (sess (snd (ask_loop n quiet idxs w)))
                \<and> 0 \<le> current_level (sess (snd (ask_loop n quiet idxs w)))
                \<and> current_level (sess (snd (ask_loop n quiet idxs w))) \<le> 2)
        \<and> well_formed (sess (snd (ask n quiet w))))
   \<and> (dict_get (questions_by_level (sess w)) (current_level (sess w)) = Inr qs \<and> qs \<noteq> []
        \<and> stdin w = u # us \<longrightarrow>
        current_level (sess (snd (serve i n quiet w))) =
          (if check_answer u (answer (last qs))
           then (if current_level (sess w) < 2 then current_level (sess w) + 1
                 else current_level (sess w))
           else (if 0 < current_level (sess w) then current_level (sess w) - 1
                 else current_level (sess w))))
   \<and> (well_formed s \<longrightarrow> (\<forall>s'. choose_level s = Inr (Some s') \<longrightarrow> current_level s' \<in> {0, 1, 2}))
   \<and> (current_level (sess w) = 1
        \<and> dict_get (questions_by_level (sess w)) 1 = Inr b1 \<and> b1 \<noteq> []
        \<and> dict_get (questions_by_level (sess w)) 2 = Inr b2 \<and> b2 \<noteq> []
        \<and> stdin w = u1 # u2 # unread
        \<and> check_answer u1 (answer (last b1)) \<and> check_answer u2 (answer (last b2)) \<longrightarrow>
        fst (ask_loop n quiet [i1, i2] w) = Running
        \<and> current_level (sess (snd (ask_iteration (int i1) n quiet w))) = 2
        \<and> current_level (sess (snd (ask_loop n quiet [i1, i2] w))) = 2)
   \<and> (current_level (sess w) = 0
        \<and> dict_get (questions_by_level (sess w)) 0 = Inr b0 \<and> b0 \<noteq> []
        \<and> stdin w = v # vs \<and> \<not> check_answer v (answer (last b0)) \<longrightarrow>
        current_level (sess (snd (ask_iteration i n quiet w))) = 0)
   \<and> current_level (record_answer True (s\<lparr>current_level := 1\<rparr>)) = 2
   \<and> current_level (record_answer True (record_answer True (s\<lparr>current_level := 1\<rparr>))) = 2
   \<and> current_level (record_answer False (s\<lparr>current_level := 0\<rparr>)) = 0"
proof (intro conjI impI allI)
  show "\<exists>s. init_session shuffle notes tp min_len max_len = Inr s \<and> current_level s = 1
        \<and> well_formed s"
    using init_session_ok [of shuffle "notes" tp min_len max_len] by blast
next
  fix idxs
  assume wf: "well_formed (sess w)"
  obtain st w' where l: "ask_loop n quiet idxs w = (st, w')" by (metis surj_pair)
  from ask_loop_ok [OF wf l] l
  show "well_formed (sess (snd (ask_loop n quiet idxs w)))" by simp
  then show "0 \<le> current_level (sess (snd (ask_loop n quiet idxs w)))"
    and "current_level (sess (snd (ask_loop n quiet idxs w))) \<le> 2"
    by (simp_all add: well_formed_def)
next
  assume wf: "well_formed (sess w)"
  obtain st w' where l: "ask_loop n quiet [0..<nat n] w = (st, w')" by (metis surj_pair)
  have "well_formed (sess w')" by (rule ask_loop_ok [OF wf l])
  then show "well_formed (sess (snd (ask n quiet w)))"
    using l print_summary_silent [of n w'] by (cases st) (simp_all add: ask_def)
next
  assume a: "dict_get (questions_by_level (sess w)) (current_level (sess w)) = Inr qs \<and> qs \<noteq> []
        \<and> stdin w = u # us"
  then have "sess (snd (serve i n quiet w)) =
     record_answer (check_answer u (answer (last qs)))
       ((sess w)\<lparr>questions_by_level :=
           dict_modify (current_level (sess w)) butlast (questions_by_level (sess w))\<rparr>)"
    using serve_grades by blast
  then show "current_level (sess (snd (serve i n quiet w))) =
          (if check_answer u (answer (last qs))
           then (if current_level (sess w) < 2 then current_level (sess w) + 1
                 else current_level (sess w))
           else (if 0 < current_level (sess w) then current_level (sess w) - 1
                 else current_level (sess w)))"
    by (simp add: record_answer_level)
next
  fix s'
  assume "well_formed s" "choose_level s = Inr (Some s')"
  then have "well_formed s'" using choose_level_ok by blast
  then have "0 \<le> current_level s' \<and> current_level s' \<le> 2" by (simp add: well_formed_def)
  then show "current_level s' \<in> {0, 1, 2}" by auto
next
  assume h: "current_level (sess w) = 1
        \<and> dict_get (questions_by_level (sess w)) 1 = Inr b1 \<and> b1 \<noteq> []
        \<and> dict_get (questions_by_level (sess w)) 2 = Inr b2 \<and> b2 \<noteq> []
        \<and> stdin w = u1 # u2 # unread
        \<and> check_answer u1 (answer (last b1)) \<and> check_answer u2 (answer (last b2))"
  have t: "fst (ask_loop n quiet [i1, i2] w) = Running
        \<and> current_level (sess (snd (ask_iteration (int i1) n quiet w))) = 2
        \<and> current_level (sess (snd (ask_loop n quiet [i1, i2] w))) = 2"
    using h by (intro two_correct_answers [of w b1 b2 u1 u2 unread]) simp_all
  show "fst (ask_loop n quiet [i1, i2] w) = Running" using t by simp
  show "current_level (sess (snd (ask_iteration (int i1) n quiet w))) = 2" using t by simp
  show "current_level (sess (snd (ask_loop n quiet [i1, i2] w))) = 2" using t by simp
next
  assume h: "current_level (sess w) = 0
        \<and> dict_get (questions_by_level (sess w)) 0 = Inr b0 \<and> b0 \<noteq> []
        \<and> stdin w = v # vs \<and> \<not> check_answer v (answer (last b0))"
  show "current_level (sess (snd (ask_iteration i n quiet w))) = 0"
    using h by (intro incorrect_answer_at_zero [of w b0 v vs]) simp_all
next
  show "current_level (record_answer True (s\<lparr>current_level := 1\<rparr>)) = 2"
    by (simp add: record_answer_def)
next
  show "current_level (record_answer True (record_answer True (s\<lparr>current_level := 1\<rparr>))) = 2"
    by (simp add: record_answer_def)
next
  show "current_level (record_answer False (s\<lparr>current_level := 0\<rparr>)) = 0"
    by (simp add: record_answer_def)
qed

theorem level_stays_in_range_witness:
  "(let w = \<lparr>sess = \<lparr>raw_notes = [], topic = None, min_chunk_length = 50, max_chunk_length = 300,
          questions_by_level = [(0, []), (1, [\<lparr>text' = ''m'', answer = ''b'', difficulty = 1\<rparr>]), (2, [\<lparr>text' = ''r'', answer = ''c'', difficulty = 2\<rparr>])],
          current_level = 1, correct_count = 0, incorrect_count = 0\<rparr>,
        stdin = [''b'', ''c'', ''zzz''], stdout = []\<rparr>
    in well_formed (sess w)
       \<and> well_formed (sess (snd (ask_loop 3 False [0, 1] w)))
       \<and> 0 \<le> current_level (sess (snd (ask_loop 3 False [0, 1] w)))
       \<and> current_level (sess (snd (ask_loop 3 False [0, 1] w))) \<le> 2
       \<and> well_formed (sess (snd (ask 3 False w)))
       \<and> current_level (sess w) = 1
       \<and> check_answer ''b'' ''b'' \<and> check_answer ''c'' ''c''
       \<and> fst (ask_loop 3 False [0, 1] w) = Running
       \<and> current_level (sess (snd (ask_iteration (int 0) 3 False w))) = 2
       \<and> current_level (sess (snd (ask_loop 3 False [0, 1] w))) = 2)
   \<and> (let w = \<lparr>sess = \<lparr>raw_notes = [], topic = None, min_chunk_length = 50, max_chunk_length = 300,
          questions_by_level = [(0, [\<lparr>text' = ''q'', answer = ''a'', difficulty = 0\<rparr>]), (1, []), (2, [])],
          current_level = 0, correct_count = 0, incorrect_count = 0\<rparr>,
        stdin = [''zzz''], stdout = []\<rparr>
      in current_level (sess w) = 0
         \<and> \<not> check_answer ''zzz'' ''a''
         \<and> current_level (sess (snd (ask_iteration 0 1 False w))) = 0)"
proof -
  define w where "w = \<lparr>sess = \<lparr>raw_notes = [], topic = None, min_chunk_length = 50, max_chunk_length = 300,
          questions_by_level = [(0, []), (1, [\<lparr>text' = ''m'', answer = ''b'', difficulty = 1\<rparr>]), (2, [\<lparr>text' = ''r'', answer = ''c'', difficulty = 2\<rparr>])],
          current_level = 1, correct_count = 0, incorrect_count = 0\<rparr>,
        stdin = [''b'', ''c'', ''zzz''], stdout = []\<rparr>"
  define v where "v = \<lparr>sess = \<lparr>raw_notes = [], topic = None, min_chunk_length = 50, max_chunk_length = 300,
          questions_by_level = [(0, [\<lparr>text' = ''q'', answer = ''a'', difficulty = 0\<rparr>]), (1, []), (2, [])],
          current_level = 0, correct_count = 0, incorrect_count = 0\<rparr>,
        stdin = [''zzz''], stdout = []\<rparr>"
  have wf: "well_formed (sess w)" by (simp add: w_def well_formed_def)
  have l1: "current_level (sess w) = 1" by (simp add: w_def)
  have c1: "check_answer ''b'' ''b''" by code_simp
  have c2: "check_answer ''c'' ''c''" by code_simp
  have c3: "\<not> check_answer ''zzz'' ''a''" by code_simp
  note t = level_stays_in_range [where w = w and n = 3 and quiet = False
      and ?b1.0 = "[\<lparr>text' = ''m'', answer = ''b'', difficulty = 1\<rparr>]"
      and ?b2.0 = "[\<lparr>text' = ''r'', answer = ''c'', difficulty = 2\<rparr>]"
      and ?u1.0 = "''b''" and ?u2.0 = "''c''" and unread = "[''zzz'']"
      and ?i1.0 = 0 and ?i2.0 = 1]
  note t' = level_stays_in_range [where w = v and n = 1 and quiet = False
      and ?b0.0 = "[\<lparr>text' = ''q'', answer = ''a'', difficulty = 0\<rparr>]"
      and v = "''zzz''" and vs = "[]" and i = 0]
  have a: "(\<forall>idxs. well_formed (sess (snd (ask_loop 3 False idxs w)))
                \<and> 0 \<le> current_level (sess (snd (ask_loop 3 False idxs w)))
                \<and> current_level (sess (snd (ask_loop 3 False idxs w))) \<le> 2)
        \<and> well_formed (sess (snd (ask 3 False w)))"
    using conjunct1 [OF conjunct2 [OF t]] wf by (rule mp)
  have h: "current_level (sess w) = 1
        \<and> dict_get (questions_by_level (sess w)) 1 = Inr [\<lparr>text' = ''m'', answer = ''b'', difficulty = 1\<rparr>]
        \<and> [\<lparr>text' = ''m'', answer = ''b'', difficulty = 1\<rparr>] \<noteq> []
        \<and> dict_get (questions_by_level (sess w)) 2 = Inr [\<lparr>text' = ''r'', answer = ''c'', difficulty = 2\<rparr>]
        \<and> [\<lparr>text' = ''r'', answer = ''c'', difficulty = 2\<rparr>] \<noteq> []
        \<and> stdin w = ''b'' # ''c'' # [''zzz'']
        \<and> check_answer ''b'' (answer (last [\<lparr>text' = ''m'', answer = ''b'', difficulty = 1\<rparr>]))
        \<and> check_answer ''c'' (answer (last [\<lparr>text' = ''r'', answer = ''c'', difficulty = 2\<rparr>]))"
    using c1 c2 by (simp add: w_def dict_get_def)
  have b: "fst (ask_loop 3 False [0, 1] w) = Running
        \<and> current_level (sess (snd (ask_iteration (int 0) 3 False w))) = 2
        \<and> current_level (sess (snd (ask_loop 3 False [0, 1] w))) = 2"
    using conjunct1 [OF conjunct2 [OF conjunct2 [OF conjunct2 [OF conjunct2 [OF t]]]]] h
    by (rule mp)
  have h': "current_level (sess v) = 0
        \<and> dict_get (questions_by_level (sess v)) 0 = Inr [\<lparr>text' = ''q'', answer = ''a'', difficulty = 0\<rparr>]
        \<and> [\<lparr>text' = ''q'', answer = ''a'', difficulty = 0\<rparr>] \<noteq> []
        \<and> stdin v = ''zzz'' # [] \<and> \<not> check_answer ''zzz'' (answer (last [\<lparr>text' = ''q'', answer = ''a'', difficulty = 0\<rparr>]))"
    using c3 by (simp add: v_def dict_get_def)
  have z: "current_level (sess (snd (ask_iteration 0 1 False v))) = 0"
    using conjunct1 [OF conjunct2 [OF conjunct2 [OF conjunct2 [OF conjunct2 [OF conjunct2 [OF t']]]]]] h'
    by (rule mp)
  have l0: "current_level (sess v) = 0" by (simp add: v_def)
  show ?thesis
    unfolding Let_def w_def [symmetric] v_def [symmetric]
    using wf a l1 c1 c2 b l0 c3 z by blast
qed

subsection \<open>The summary\<close>

text \<open>
  C7. When the loop has ended, after all its iterations or early, and output is not
  suppressed, the summary reports \<open>correct_count + incorrect_count\<close> as the number of
  questions attempted, then both counts, and the accuracy
  \<open>100 * correct_count / total_answered\<close> exactly when that total is not zero; with a
  total of zero the accuracy line is left out. No run of \<open>ask\<close> ends with a division by
  zero.
\<close>

theorem summary_after_loop:
  "((\<forall>e. fst (ask_loop num_questions False [0..<nat num_questions] w) \<noteq> Raised e) \<longrightarrow>
      ask num_questions False w =
        (let w' = snd (ask_loop num_questions False [0..<nat num_questions] w);
             c = correct_count (sess w'); i = incorrect_count (sess w')
         in (None, w'\<lparr>stdout := stdout w'
               @ [QuizComplete, Attempted (c + i), CorrectAnswers c, IncorrectAnswers i]
               @ (if c + i = 0 then [] else [Accuracy (of_int (100 * c) / of_int (c + i))])\<rparr>)))
   \<and> fst (ask num_questions quiet w) \<noteq> Some ZeroDivisionError
   \<and> fst (print_summary num_questions w) = None"
proof (intro conjI impI)
  assume nr: "\<forall>e. fst (ask_loop num_questions False [0..<nat num_questions] w) \<noteq> Raised e"
  obtain st w' where l: "ask_loop num_questions False [0..<nat num_questions] w = (st, w')"
    by (metis surj_pair)
  with nr have "\<forall>e. st \<noteq> Raised e" by simp
  then have "ask num_questions False w = print_summary num_questions w'"
    using l by (cases st) (simp_all add: ask_def)
  then show "ask num_questions False w =
        (let w' = snd (ask_loop num_questions False [0..<nat num_questions] w);
             c = correct_count (sess w'); i = incorrect_count (sess w')
         in (None, w'\<lparr>stdout := stdout w'
               @ [QuizComplete, Attempted (c + i), CorrectAnswers c, IncorrectAnswers i]
               @ (if c + i = 0 then [] else [Accuracy (of_int (100 * c) / of_int (c + i))])\<rparr>))"
    using l by (simp add: print_summary_total Let_def)
next
  obtain st w' where l: "ask_loop num_questions quiet [0..<nat num_questions] w = (st, w')"
    by (metis surj_pair)
  show "fst (ask num_questions quiet w) \<noteq> Some ZeroDivisionError"
  proof (cases st)
    case (Raised e)
    with l ask_loop_no_division_error [of num_questions quiet _ w e w'] show ?thesis
      by (simp add: ask_def)
  next
    case Running
    with l print_summary_silent [of num_questions w'] show ?thesis by (simp add: ask_def)
  next
    case Broke
    with l print_summary_silent [of num_questions w'] show ?thesis by (simp add: ask_def)
  qed
next
  show "fst (print_summary num_questions w) = None" by (simp add: print_summary_total)
qed

theorem summary_after_loop_witness:
  "(let w = \<lparr>sess = \<lparr>raw_notes = [], topic = None, min_chunk_length = 50, max_chunk_length = 300,
          questions_by_level = [(0, [\<lparr>text' = ''q'', answer = ''a'', difficulty = 0\<rparr>]), (1, []), (2, [])],
          current_level = 1, correct_count = 0, incorrect_count = 0\<rparr>,
        stdin = [''a'', ''zzz''], stdout = []\<rparr>
    in fst (ask_loop 3 False [0..<nat 3] w) = Broke
       \<and> ask 3 False w =
           (let w' = snd (ask_loop 3 False [0..<nat 3] w);
                c = correct_count (sess w'); i = incorrect_count (sess w')
            in (None, w'\<lparr>stdout := stdout w'
                  @ [QuizComplete, Attempted (c + i), CorrectAnswers c, IncorrectAnswers i]
                  @ (if c + i = 0 then [] else [Accuracy (of_int (100 * c) / of_int (c + i))])\<rparr>))
       \<and> stdout (snd (ask 3 False w)) =
           [QuestionHeader 1 3 0, QuestionText ''q'', Prompt, MsgCorrect, NoMoreQuestions,
            QuizComplete, Attempted 1, CorrectAnswers 1, IncorrectAnswers 0, Accuracy 100])
   \<and> (let w = \<lparr>sess = \<lparr>raw_notes = [], topic = None, min_chunk_length = 50, max_chunk_length = 300,
          questions_by_level = [(0, []), (1, []), (2, [])],
          current_level = 1, correct_count = 0, incorrect_count = 0\<rparr>,
        stdin = [], stdout = []\<rparr>
      in fst (ask_loop 5 False [0..<nat 5] w) = Broke
         \<and> stdout (snd (ask 5 False w)) =
             [NoMoreQuestions, QuizComplete, Attempted 0, CorrectAnswers 0, IncorrectAnswers 0])"
proof -
  define w where "w = \<lparr>sess = \<lparr>raw_notes = [], topic = None, min_chunk_length = 50, max_chunk_length = 300,
          questions_by_level = [(0, [\<lparr>text' = ''q'', answer = ''a'', difficulty = 0\<rparr>]), (1, []), (2, [])],
          current_level = 1, correct_count = 0, incorrect_count = 0\<rparr>,
        stdin = [''a'', ''zzz''], stdout = []\<rparr>"
  define v where "v = \<lparr>sess = \<lparr>raw_notes = [], topic = None, min_chunk_length = 50, max_chunk_length = 300,
          questions_by_level = [(0, []), (1, []), (2, [])],
          current_level = 1, correct_count = 0, incorrect_count = 0\<rparr>,
        stdin = [], stdout = []\<rparr>"
  have l: "ask_loop 3 False [0..<nat 3] w
      = (Broke, \<lparr>sess = \<lparr>raw_notes = [], topic = None, min_chunk_length = 50, max_chunk_length = 300,
          questions_by_level = [(0, []), (1, []), (2, [])],
          current_level = 1, correct_count = 1, incorrect_count = 0\<rparr>,
                 stdin = [''zzz''],
                 stdout = [QuestionHeader 1 3 0, QuestionText ''q'', Prompt, MsgCorrect,
                           NoMoreQuestions]\<rparr>)"
    unfolding w_def by code_simp
  then have h: "\<forall>e. fst (ask_loop 3 False [0..<nat 3] w) \<noteq> Raised e" by simp
  have a: "ask 3 False w =
           (let w' = snd (ask_loop 3 False [0..<nat 3] w);
                c = correct_count (sess w'); i = incorrect_count (sess w')
            in (None, w'\<lparr>stdout := stdout w'
                  @ [QuizComplete, Attempted (c + i), CorrectAnswers c, IncorrectAnswers i]
                  @ (if c + i = 0 then [] else [Accuracy (of_int (100 * c) / of_int (c + i))])\<rparr>))"
    using conjunct1 [OF summary_after_loop [of 3 w False]] h by (rule mp)
  have o: "stdout (snd (ask 3 False w)) =
           [QuestionHeader 1 3 0, QuestionText ''q'', Prompt, MsgCorrect, NoMoreQuestions,
            QuizComplete, Attempted 1, CorrectAnswers 1, IncorrectAnswers 0, Accuracy 100]"
    unfolding a l by (simp add: Let_def)
  have l': "ask_loop 5 False [0..<nat 5] v = (Broke, v\<lparr>stdout := [NoMoreQuestions]\<rparr>)"
    unfolding v_def by code_simp
  then have h': "\<forall>e. fst (ask_loop 5 False [0..<nat 5] v) \<noteq> Raised e" by simp
  have a': "ask 5 False v =
           (let w' = snd (ask_loop 5 False [0..<nat 5] v);
                c = correct_count (sess w'); i = incorrect_count (sess w')
            in (None, w'\<lparr>stdout := stdout w'
                  @ [QuizComplete, Attempted (c + i), CorrectAnswers c, IncorrectAnswers i]
                  @ (if c + i = 0 then [] else [Accuracy (of_int (100 * c) / of_int (c + i))])\<rparr>))"
    using conjunct1 [OF summary_after_loop [of 5 v False]] h' by (rule mp)
  have o': "stdout (snd (ask 5 False v)) =
             [NoMoreQuestions, QuizComplete, Attempted 0, CorrectAnswers 0, IncorrectAnswers 0]"
    unfolding a' l' by (simp add: Let_def v_def)
  show ?thesis
    using l a o l' o' unfolding w_def [symmetric] v_def [symmetric] Let_def
    by (simp add: Let_def)
qed

subsection \<open>The quiet flag\<close>

text \<open>
  C9. The quiet flag affects output only: from every state, for every number of questions
  and every sequence of answers, \<open>ask\<close> with \<open>quiet\<close> set and \<open>ask\<close> without it end
  the same way (normally or with the same exception), with the same session (the counts of
  correct and incorrect answers, the current level and the contents of the buckets) and
  the same unread answers.
\<close>

theorem quiet_only_affects_output:
  "fst (ask num_questions True w) = fst (ask num_questions False w)
   \<and> sess (snd (ask num_questions True w)) = sess (snd (ask num_questions False w))
   \<and> stdin (snd (ask num_questions True w)) = stdin (snd (ask num_questions False w))"
proof -
  obtain st1 v1 where a: "ask_loop num_questions True [0..<nat num_questions] w = (st1, v1)"
    by (metis surj_pair)
  obtain st2 v2 where b: "ask_loop num_questions False [0..<nat num_questions] w = (st2, v2)"
    by (metis surj_pair)
  from ask_loop_quiet [OF refl refl, of num_questions True "[0..<nat num_questions]" w False] a b
  have e: "st1 = st2" "sess v1 = sess v2" "stdin v1 = stdin v2" by simp_all
  show ?thesis
    using a b e print_summary_silent [of num_questions v2]
    by (cases st2) (simp_all add: ask_def)
qed

end
